theory Spec2Isabelle
  imports Complex_Main "HOL-Library.Multiset"
begin

section \<open>Self-adjoint eigen solver\<close>

text \<open>
  A dense matrix is kept column by column, as the column-major storage of the source
  does: \<open>m ! j ! i\<close> is the coefficient in row \<open>i\<close> of column \<open>j\<close>. The scalar of the
  matrix is complex (a real matrix is the special case of zero imaginary parts); the
  eigenvalues, the diagonal and the sub-diagonal are real.
\<close>

type_synonym matrix = "complex list list"

definition cols :: "matrix \<Rightarrow> nat" where
  "cols m = length m"

definition is_square :: "matrix \<Rightarrow> bool" where
  "is_square m = list_all (\<lambda>c. length c = length m) m"

text \<open>
  The collaborators of the solver whose code lies outside the solver's file: the
  Householder tridiagonalisation, the fuzzy comparison, the construction of a Givens
  rotation \<open>(c, s)\<close> and its application to two columns. The solver is verified for
  every choice of them. \<open>decomposeInPlace\<close> receives the working matrix and the flag and
  yields the new working matrix together with the diagonal and sub-diagonal it wrote
  (entry \<open>i\<close> of each, read back into the buffers \<open>compute\<close> has sized).
\<close>

record collaborators =
  decomposeInPlace :: "matrix \<Rightarrow> bool \<Rightarrow> matrix \<times> (nat \<Rightarrow> real) \<times> (nat \<Rightarrow> real)"
  ei_isMuchSmallerThan :: "real \<Rightarrow> real \<Rightarrow> bool"
  makeGivens :: "real \<Rightarrow> real \<Rightarrow> real \<times> real"
  applyOnTheRight :: "nat \<Rightarrow> nat \<Rightarrow> real \<times> real \<Rightarrow> matrix \<Rightarrow> matrix"

subsection \<open>One implicit symmetric QR step\<close>

text \<open>
  The body of the \<open>for (k = start; k < end; ++k)\<close> loop of \<open>ei_tridiagonal_qr_step\<close>.
  The loop state is \<open>(diag, subdiag, x, z, matrixQ)\<close>; \<open>matrixQ\<close> is \<open>None\<close> for the null
  pointer. \<open>diag\<close> and \<open>subdiag\<close> are plain arrays of \<open>n\<close> and \<open>n - 1\<close> reals that the
  function indexes without a check; \<open>compute\<close> calls it with \<open>start < end \<le> n - 1\<close>, which
  keeps every index in range.
\<close>

type_synonym qr_state = "real list \<times> real list \<times> real \<times> real \<times> matrix option"

definition qr_rotation :: "collaborators \<Rightarrow> nat \<Rightarrow> nat \<Rightarrow> nat \<Rightarrow> qr_state \<Rightarrow> qr_state" where
  "qr_rotation cb start endi k = (\<lambda>(diag, subdiag, x, z, matrixQ).
     let (c, s) = makeGivens cb x z;
         sdk = s * diag ! k + c * subdiag ! k;
         dkp1 = s * subdiag ! k + c * diag ! (k + 1);
         diag1 = diag[k := c * (c * diag ! k - s * subdiag ! k)
                          - s * (c * subdiag ! k - s * diag ! (k + 1))];
         diag2 = diag1[k + 1 := s * sdk + c * dkp1];
         subdiag1 = subdiag[k := c * sdk - s * dkp1];
         subdiag2 = (if k > start
                     then subdiag1[k - 1 := c * subdiag1 ! (k - 1) - s * z]
                     else subdiag1);
         x1 = subdiag2 ! k;
         z1 = (if k < endi - 1 then - s * subdiag2 ! (k + 1) else z);
         subdiag3 = (if k < endi - 1
                     then subdiag2[k + 1 := c * subdiag2 ! (k + 1)]
                     else subdiag2);
         matrixQ1 = map_option (applyOnTheRight cb k (k + 1) (c, s)) matrixQ
     in (diag2, subdiag3, x1, z1, matrixQ1))"

definition ei_tridiagonal_qr_step ::
  "collaborators \<Rightarrow> real list \<Rightarrow> real list \<Rightarrow> nat \<Rightarrow> nat \<Rightarrow> matrix option \<Rightarrow> nat
     \<Rightarrow> real list \<times> real list \<times> matrix option" where
  "ei_tridiagonal_qr_step cb diag subdiag start endi matrixQ n =
     (let td = (diag ! (endi - 1) - diag ! endi) * 0.5;
          e2 = (subdiag ! (endi - 1))\<^sup>2;
          mu = diag ! endi - e2 / (td + (if td > 0 then 1 else - 1) * sqrt (td * td + e2));
          x = diag ! start - mu;
          z = subdiag ! start;
          (diag1, subdiag1, x1, z1, matrixQ1) =
             fold (qr_rotation cb start endi) [start..<endi] (diag, subdiag, x, z, matrixQ)
      in (diag1, subdiag1, matrixQ1))"

subsection \<open>The deflation loop of compute\<close>

text \<open>\<open>for (i = start; i < end; ++i) if (negligible) m_subdiag[i] = 0\<close>\<close>

definition deflate :: "collaborators \<Rightarrow> real list \<Rightarrow> real list \<Rightarrow> nat \<Rightarrow> nat \<Rightarrow> real list" where
  "deflate cb diag subdiag start endi =
     fold (\<lambda>i sd. if ei_isMuchSmallerThan cb \<bar>sd ! i\<bar> (\<bar>diag ! i\<bar> + \<bar>diag ! (i + 1)\<bar>)
                   then sd[i := 0] else sd)
          [start..<endi] subdiag"

text \<open>\<open>while (end > 0 && m_subdiag[end-1] == 0) end--\<close>\<close>

fun find_end :: "real list \<Rightarrow> nat \<Rightarrow> nat" where
  "find_end subdiag 0 = 0"
| "find_end subdiag (Suc e) = (if subdiag ! e = 0 then find_end subdiag e else Suc e)"

text \<open>\<open>while (start > 0 && m_subdiag[start-1] != 0) start--\<close>\<close>

fun find_start :: "real list \<Rightarrow> nat \<Rightarrow> nat" where
  "find_start subdiag 0 = 0"
| "find_start subdiag (Suc s) = (if subdiag ! s \<noteq> 0 then find_start subdiag s else Suc s)"

text \<open>
  One pass through the body of the \<open>while (end > 0)\<close> loop, from the loop state
  \<open>(diag, subdiag, eivec, start, end)\<close>: \<open>Inl\<close> when the loop is left (the test
  \<open>end > 0\<close> fails, or the \<open>break\<close> is taken), \<open>Inr\<close> with the next loop state after a
  QR step otherwise.
\<close>

type_synonym loop_state = "real list \<times> real list \<times> matrix \<times> nat \<times> nat"

definition loop_body ::
  "collaborators \<Rightarrow> bool \<Rightarrow> nat \<Rightarrow> loop_state
     \<Rightarrow> (real list \<times> real list \<times> matrix) + loop_state" where
  "loop_body cb computeEigenvectors n = (\<lambda>(diag, subdiag, eivec, start, endi).
     if endi > 0 then
       (let subdiag1 = deflate cb diag subdiag start endi;
            endi1 = find_end subdiag1 endi
        in if endi1 \<le> 0 then Inl (diag, subdiag1, eivec)
           else
             (let start1 = find_start subdiag1 (endi1 - 1);
                  (diag2, subdiag2, matrixQ) =
                     ei_tridiagonal_qr_step cb diag subdiag1 start1 endi1
                       (if computeEigenvectors then Some eivec else None) n
              in Inr (diag2, subdiag2,
                      (case matrixQ of Some q \<Rightarrow> q | None \<Rightarrow> eivec), start1, endi1)))
     else Inl (diag, subdiag, eivec))"

text \<open>
  The loop itself. The source gives it no iteration budget, so the model is a partial
  function: \<open>None\<close> stands for a run that never leaves the loop.
\<close>

partial_function (option) qr_iterate ::
  "collaborators \<Rightarrow> bool \<Rightarrow> nat \<Rightarrow> loop_state \<Rightarrow> (real list \<times> real list \<times> matrix) option" where
  "qr_iterate cb computeEigenvectors n st =
     (case loop_body cb computeEigenvectors n st of
        Inl r \<Rightarrow> Some r
      | Inr st1 \<Rightarrow> qr_iterate cb computeEigenvectors n st1)"

subsection \<open>Sorting the eigenvalues\<close>

text \<open>
  Modelled from the spec: \<open>minCoeff(&k)\<close> belongs to the dense-vector collaborator and
  is not part of the solver's file. The spec has it "find index of minimum of the
  remaining suffix"; the index returned is that of the first minimal coefficient.
\<close>

fun minCoeff_index :: "real list \<Rightarrow> nat" where
  "minCoeff_index [] = 0"
| "minCoeff_index (x # xs) =
     (if xs = [] then 0
      else (let k = minCoeff_index xs in if xs ! k < x then Suc k else 0))"

text \<open>\<open>std::swap(v[i], v[j])\<close> and \<open>m.col(i).swap(m.col(j))\<close>\<close>

definition swap_at :: "'a list \<Rightarrow> nat \<Rightarrow> nat \<Rightarrow> 'a list" where
  "swap_at xs i j = xs[i := xs ! j, j := xs ! i]"

text \<open>
  The body of \<open>for (i = 0; i < n-1; ++i)\<close>: the minimum of \<open>segment(i, n-i)\<close> is found
  at offset \<open>k\<close>, and when \<open>k > 0\<close> the eigenvalues \<open>i\<close> and \<open>k+i\<close> and the columns \<open>i\<close>
  and \<open>k+i\<close> are swapped.
\<close>

definition sort_step :: "nat \<Rightarrow> nat \<Rightarrow> real list \<times> matrix \<Rightarrow> real list \<times> matrix" where
  "sort_step n i = (\<lambda>(eivalues, eivec).
     let k = minCoeff_index (take (n - i) (drop i eivalues))
     in if k > 0 then (swap_at eivalues i (k + i), swap_at eivec i (k + i))
        else (eivalues, eivec))"

definition sort_eigen :: "nat \<Rightarrow> real list \<times> matrix \<Rightarrow> real list \<times> matrix" where
  "sort_eigen n st = fold (sort_step n) [0..<n - 1] st"

subsection \<open>compute\<close>

record solver =
  m_eivec :: matrix
  m_eivalues :: "real list"
  m_subdiag :: "real list"
  m_eigenvectorsOk :: bool

datatype error = AssertionFailed | OutOfBounds

text \<open>
  The part of \<open>compute\<close> for \<open>n > 1\<close> up to the end of the \<open>while\<close> loop: the working copy
  is tridiagonalised and the loop is run from \<open>start = 0\<close>, \<open>end = n-1\<close>. It yields the
  diagonal (the unsorted eigenvalues), the sub-diagonal and the working matrix.
\<close>

definition diagonalize ::
  "collaborators \<Rightarrow> matrix \<Rightarrow> bool \<Rightarrow> (real list \<times> real list \<times> matrix) option" where
  "diagonalize cb matrix computeEigenvectors =
     (let n = cols matrix;
          (eivec, d, sd) = decomposeInPlace cb matrix computeEigenvectors
      in qr_iterate cb computeEigenvectors n
           (map d [0..<n], map sd [0..<n - 1], eivec, 0, n - 1))"

text \<open>
  \<open>compute(matrix, computeEigenvectors)\<close> on the solver object \<open>slv\<close>. The assertion on
  the shape of the matrix is a result of its own; \<open>None\<close> is a call that never returns.
  The contract is for \<open>n \<ge> 1\<close>.
\<close>

definition compute ::
  "collaborators \<Rightarrow> solver \<Rightarrow> matrix \<Rightarrow> bool \<Rightarrow> (error + solver) option" where
  "compute cb slv matrix computeEigenvectors =
     (if \<not> is_square matrix then Some (Inl AssertionFailed)
      else if cols matrix = 1 then
        Some (Inr (slv\<lparr>m_eivec := [[1]], m_eivalues := [Re (matrix ! 0 ! 0)],
                        m_eigenvectorsOk := computeEigenvectors\<rparr>))
      else
        (case diagonalize cb matrix computeEigenvectors of
           None \<Rightarrow> None
         | Some (diag, subdiag, eivec) \<Rightarrow>
             (let (eivalues, eivec1) = sort_eigen (cols matrix) (diag, eivec)
              in Some (Inr \<lparr>m_eivec = eivec1, m_eivalues = eivalues, m_subdiag = subdiag,
                            m_eigenvectorsOk = computeEigenvectors\<rparr>))))"

definition eigenvalues :: "solver \<Rightarrow> real list" where
  "eigenvalues slv = m_eivalues slv"

definition eigenvectors :: "solver \<Rightarrow> error + matrix" where
  "eigenvectors slv = (if m_eigenvectorsOk slv then Inr (m_eivec slv) else Inl AssertionFailed)"

subsection \<open>Auxiliary notions for the proofs about the solver\<close>

text \<open>
  The collaborators work in place on the \<open>n \<times> n\<close> working matrix: they never change
  its number of columns.
\<close>

definition keeps_cols :: "collaborators \<Rightarrow> bool" where
  "keeps_cols cb =
     ((\<forall>m f. length (fst (decomposeInPlace cb m f)) = length m) \<and>
      (\<forall>i j r m. length (applyOnTheRight cb i j r m) = length m))"

text \<open>
  Modelled from the spec: one concrete set of collaborators, used to run the solver on
  concrete matrices. The rotation is the Givens rotation that zeroes the second entry
  of \<open>(p, q)\<close>, applied to two adjacent columns; the fuzzy comparison is relative with
  threshold \<open>10\<^sup>-\<^sup>1\<^sup>2\<close>; the tridiagonalisation is the one for an input that is already
  tridiagonal: it reads the diagonal and the sub-diagonal off the matrix and, when the
  eigenvectors are requested, leaves the accumulated orthogonal transform, which is the
  identity for such an input, in the working storage.
\<close>

definition tridiagonal_collab :: collaborators where
  "tridiagonal_collab =
     \<lparr>decomposeInPlace = (\<lambda>m f.
         ((if f then map (\<lambda>j. map (\<lambda>i. if i = j then 1 else 0) [0..<length m]) [0..<length m]
           else m),
          (\<lambda>i. Re (m ! i ! i)), (\<lambda>i. Re (m ! i ! (i + 1))))),
      ei_isMuchSmallerThan = (\<lambda>a b. \<bar>a\<bar> \<le> \<bar>b\<bar> * (1 / 10 ^ 12)),
      makeGivens = (\<lambda>p q. (p / sqrt (p\<^sup>2 + q\<^sup>2), - q / sqrt (p\<^sup>2 + q\<^sup>2))),
      applyOnTheRight = (\<lambda>p q (c, s) m.
         m[p := map2 (\<lambda>a b. complex_of_real c * a - complex_of_real s * b) (m ! p) (m ! q),
           q := map2 (\<lambda>a b. complex_of_real s * a + complex_of_real c * b) (m ! p) (m ! q)])\<rparr>"

text \<open>Two loop states that differ at most in the working matrix.\<close>

definition same_tri :: "loop_state \<Rightarrow> loop_state \<Rightarrow> bool" where
  "same_tri st st' =
     (fst st = fst st' \<and> fst (snd st) = fst (snd st') \<and> snd (snd (snd st)) = snd (snd (snd st')))"

text \<open>
  The invariant of the selection sort after \<open>i\<close> rounds: the first \<open>i\<close> eigenvalues are
  in their final place, each at most every eigenvalue after it.
\<close>

definition sorted_upto :: "nat \<Rightarrow> nat \<Rightarrow> real list \<Rightarrow> bool" where
  "sorted_upto n i ev = (length ev = n \<and> (\<forall>p q. p < i \<and> p < q \<and> q < n \<longrightarrow> ev ! p \<le> ev ! q))"

section \<open>Dogleg trust-region step\<close>

text \<open>
  Vectors are lists of reals. The packed factor \<open>r__\<close> holds the upper triangle of \<open>R\<close>
  row by row: row \<open>j\<close> starts at index \<open>j*n - j*(j-1)/2\<close> with \<open>R(j,j)\<close> and has
  \<open>n - j\<close> entries. \<open>ei_dogleg\<close> asserts the sizes of \<open>qtb\<close> and \<open>x\<close> against
  \<open>n = diag.size()\<close>, and \<open>wa1\<close>, \<open>wa2\<close> are created with size \<open>n\<close>, so every index into
  these vectors is in range. The size of \<open>r__\<close> is not asserted: a read of \<open>r__[l]\<close> is
  checked by the index assertion of \<open>operator[]\<close>, which is a result of its own here.
\<close>

definition rd :: "real list \<Rightarrow> nat \<Rightarrow> error + real" where
  "rd v i = (if i < length v then Inr (v ! i) else Inl AssertionFailed)"

text \<open>A loop over \<open>idx\<close> whose body may fail: the first failure ends the run.\<close>

fun fold_err :: "('a \<Rightarrow> 's \<Rightarrow> error + 's) \<Rightarrow> 'a list \<Rightarrow> 's \<Rightarrow> error + 's" where
  "fold_err f [] s = Inr s"
| "fold_err f (a # as) s = (case f a s of Inl e \<Rightarrow> Inl e | Inr s1 \<Rightarrow> fold_err f as s1)"

text \<open>
  Modelled from the spec: \<open>stableNorm\<close> belongs to the dense-vector collaborator. The
  spec has all norms "computed via a scale-avoiding (stable) norm algorithm": in exact
  arithmetic it is the Euclidean norm.
\<close>

definition stableNorm :: "real list \<Rightarrow> real" where
  "stableNorm v = sqrt (\<Sum>a\<leftarrow>v. a\<^sup>2)"

subsection \<open>The Gauss-Newton direction\<close>

text \<open>\<open>for (i = jp1; i < n; ++i) { sum += r__[l] * x[i]; ++l; }\<close>, on the state \<open>(l, sum)\<close> (\<open>sm\<close> below)\<close>

definition gn_sum_step :: "real list \<Rightarrow> real list \<Rightarrow> nat \<Rightarrow> nat \<times> real \<Rightarrow> error + nat \<times> real" where
  "gn_sum_step r x i = (\<lambda>(l, sm).
     case rd r l of Inl e \<Rightarrow> Inl e | Inr v \<Rightarrow> Inr (l + 1, sm + v * x ! i))"

text \<open>
  \<open>for (i = 0; i <= j; ++i) { temp = max(temp, abs(r__[l])); l = l + n - i; }\<close>, on the
  state \<open>(l, temp)\<close>
\<close>

definition col_max_step :: "real list \<Rightarrow> nat \<Rightarrow> nat \<Rightarrow> nat \<times> real \<Rightarrow> error + nat \<times> real" where
  "col_max_step r n i = (\<lambda>(l, temp).
     case rd r l of Inl e \<Rightarrow> Inl e | Inr v \<Rightarrow> Inr (l + n - i, max temp \<bar>v\<bar>))"

text \<open>
  The divisor of row \<open>j\<close> (label \<open>L20\<close> to label \<open>L40\<close>): \<open>temp = r__[jj]\<close>, replaced when
  it is zero.
\<close>

definition gn_divisor :: "real \<Rightarrow> real list \<Rightarrow> nat \<Rightarrow> nat \<Rightarrow> nat \<Rightarrow> error + real" where
  "gn_divisor epsmch r n j jj =
     (case rd r jj of Inl e \<Rightarrow> Inl e
      | Inr temp \<Rightarrow>
          if temp \<noteq> 0 then Inr temp
          else (case fold_err (col_max_step r n) [0..<j + 1] (j, temp) of
                  Inl e \<Rightarrow> Inl e
                | Inr (l, temp1) \<Rightarrow>
                    (let temp2 = epsmch * temp1
                     in if temp2 = 0 then Inr epsmch else Inr temp2)))"

text \<open>The body of \<open>for (k = 0; k < n; ++k)\<close>, on the state \<open>(jj, x)\<close>.\<close>

definition gn_step ::
  "real \<Rightarrow> real list \<Rightarrow> real list \<Rightarrow> nat \<Rightarrow> nat \<Rightarrow> nat \<times> real list \<Rightarrow> error + nat \<times> real list" where
  "gn_step epsmch r qtb n k = (\<lambda>(jj, x).
     let j = n - k - 1;
         jp1 = j + 1;
         jj1 = jj - (k + 1);
         l = jj1 + 1
     in case fold_err (gn_sum_step r x) [jp1..<n] (l, 0) of
          Inl e \<Rightarrow> Inl e
        | Inr (l1, sm) \<Rightarrow>
            (case gn_divisor epsmch r n j jj1 of
               Inl e \<Rightarrow> Inl e
             | Inr temp \<Rightarrow> Inr (jj1, x[j := (qtb ! j - sm) / temp])))"

definition gauss_newton ::
  "real \<Rightarrow> real list \<Rightarrow> real list \<Rightarrow> nat \<Rightarrow> real list \<Rightarrow> error + real list" where
  "gauss_newton epsmch r qtb n x =
     (case fold_err (gn_step epsmch r qtb n) [0..<n] (n * (n + 1) div 2, x) of
        Inl e \<Rightarrow> Inl e
      | Inr (jj, x1) \<Rightarrow> Inr x1)"

subsection \<open>The scaled gradient direction\<close>

text \<open>\<open>for (i = j; i < n; ++i) { wa1[i] += r__[l] * temp; ++l; }\<close>, on the state \<open>(l, wa1)\<close>\<close>

definition grad_inner_step ::
  "real list \<Rightarrow> real \<Rightarrow> nat \<Rightarrow> nat \<times> real list \<Rightarrow> error + nat \<times> real list" where
  "grad_inner_step r temp i = (\<lambda>(l, wa1).
     case rd r l of Inl e \<Rightarrow> Inl e | Inr v \<Rightarrow> Inr (l + 1, wa1[i := wa1 ! i + v * temp]))"

definition grad_step ::
  "real list \<Rightarrow> real list \<Rightarrow> real list \<Rightarrow> nat \<Rightarrow> nat \<Rightarrow> nat \<times> real list \<Rightarrow> error + nat \<times> real list" where
  "grad_step r diag qtb n j = (\<lambda>(l, wa1).
     case fold_err (grad_inner_step r (qtb ! j)) [j..<n] (l, wa1) of
       Inl e \<Rightarrow> Inl e
     | Inr (l1, wa11) \<Rightarrow> Inr (l1, wa11[j := wa11 ! j / diag ! j]))"

definition scaled_gradient ::
  "real list \<Rightarrow> real list \<Rightarrow> real list \<Rightarrow> nat \<Rightarrow> error + real list" where
  "scaled_gradient r diag qtb n =
     (case fold_err (grad_step r diag qtb n) [0..<n] (0, replicate n 0) of
        Inl e \<Rightarrow> Inl e
      | Inr (l, wa1) \<Rightarrow> Inr wa1)"

subsection \<open>The product of R with the normalised gradient\<close>

text \<open>\<open>for (i = j; i < n; ++i) { sum += r__[l] * wa1[i]; ++l; }\<close> is \<open>gn_sum_step\<close> again.\<close>

definition rmul_step ::
  "real list \<Rightarrow> real list \<Rightarrow> nat \<Rightarrow> nat \<Rightarrow> nat \<times> real list \<Rightarrow> error + nat \<times> real list" where
  "rmul_step r wa1 n j = (\<lambda>(l, wa2).
     case fold_err (gn_sum_step r wa1) [j..<n] (l, 0) of
       Inl e \<Rightarrow> Inl e
     | Inr (l1, sm) \<Rightarrow> Inr (l1, wa2[j := sm]))"

definition r_times :: "real list \<Rightarrow> real list \<Rightarrow> real list \<Rightarrow> nat \<Rightarrow> error + real list" where
  "r_times r wa1 wa2 n =
     (case fold_err (rmul_step r wa1 n) [0..<n] (0, wa2) of
        Inl e \<Rightarrow> Inl e
      | Inr (l, wa21) \<Rightarrow> Inr wa21)"

subsection \<open>ei_dogleg\<close>

text \<open>
  Label \<open>L120\<close>: \<open>temp = (1 - alpha) * min(sgnorm, delta)\<close> and
  \<open>x[j] = temp * wa1[j] + alpha * x[j]\<close> for every \<open>j < n\<close>.
\<close>

definition combine :: "real \<Rightarrow> real \<Rightarrow> real \<Rightarrow> nat \<Rightarrow> real list \<Rightarrow> real list \<Rightarrow> real list" where
  "combine sgnorm alpha delta n wa1 x =
     (let temp = (1 - alpha) * min sgnorm delta
      in map (\<lambda>j. temp * wa1 ! j + alpha * x ! j) [0..<n])"

text \<open>
  \<open>ei_dogleg(r__, diag, qtb, delta, x)\<close>; the result is the vector left in \<open>x\<close>.
  \<open>epsmch\<close> is \<open>epsilon<Scalar>()\<close>, the machine precision of the scalar type. The
  arithmetic is that of the reals: no rounding, and a quotient by zero is zero where
  the source gets an infinity or a NaN.
\<close>

definition ei_dogleg ::
  "real \<Rightarrow> real list \<Rightarrow> real list \<Rightarrow> real list \<Rightarrow> real \<Rightarrow> real list \<Rightarrow> error + real list" where
  "ei_dogleg epsmch r diag qtb delta x =
     (let n = length diag in
      if n \<noteq> length qtb \<or> n \<noteq> length x then Inl AssertionFailed
      else
        case gauss_newton epsmch r qtb n x of
          Inl e \<Rightarrow> Inl e
        | Inr x1 \<Rightarrow>
            (let wa2 = map (\<lambda>j. diag ! j * x1 ! j) [0..<n];
                 qnorm = stableNorm wa2
             in if qnorm \<le> delta then Inr x1
                else
                  case scaled_gradient r diag qtb n of
                    Inl e \<Rightarrow> Inl e
                  | Inr wa1 \<Rightarrow>
                      (let gnorm = stableNorm wa1
                       in if gnorm = 0 then Inr (combine 0 (delta / qnorm) delta n wa1 x1)
                          else
                            (let wa11 = map (\<lambda>j. wa1 ! j / gnorm / diag ! j) [0..<n]
                             in case r_times r wa11 wa2 n of
                                  Inl e \<Rightarrow> Inl e
                                | Inr wa21 \<Rightarrow>
                                    (let temp = stableNorm wa21;
                                         sgnorm = gnorm / temp / temp
                                     in if sgnorm \<ge> delta then Inr (combine sgnorm 0 delta n wa11 x1)
                                        else
                                          (let bnorm = stableNorm qtb;
                                               temp1 = bnorm / gnorm * (bnorm / qnorm) * (sgnorm / delta);
                                               temp2 = temp1 - delta / qnorm * (sgnorm / delta)\<^sup>2
                                                       + sqrt ((temp1 - delta / qnorm)\<^sup>2
                                                               + (1 - (delta / qnorm)\<^sup>2) * (1 - (sgnorm / delta)\<^sup>2));
                                               alpha = delta / qnorm * (1 - (sgnorm / delta)\<^sup>2) / temp2
                                           in Inr (combine sgnorm alpha delta n wa11 x1)))))))"

subsection \<open>The zero-pivot rule as the specification words it\<close>

text \<open>
  Column \<open>j\<close> of \<open>R\<close> in the packed storage: the entries \<open>R(i,j)\<close> for \<open>i \<le> j\<close>, entry
  \<open>R(i,j)\<close> at index \<open>i*n - i*(i-1)/2 + (j - i)\<close>.
\<close>

definition spec_column :: "real list \<Rightarrow> nat \<Rightarrow> nat \<Rightarrow> real list" where
  "spec_column r n j = map (\<lambda>i. r ! (i * n - i * (i - 1) div 2 + (j - i))) [0..<j + 1]"


subsection \<open>The packed factor as a triangular matrix\<close>

text \<open>
  The index in the packed factor at which row \<open>j\<close> of \<open>R\<close> begins: the rows before it
  hold \<open>n, n - 1, \<dots>, n - j + 1\<close> entries.
\<close>

primrec row_start :: "nat \<Rightarrow> nat \<Rightarrow> nat" where
  "row_start n 0 = 0"
| "row_start n (Suc j) = row_start n j + (n - j)"

text \<open>Row \<open>j\<close> of \<open>R\<close> times the vector \<open>x\<close>: \<open>\<Sum>\<^sub>i\<^sub>\<ge>\<^sub>j R(j,i) x\<^sub>i\<close>.\<close>

definition packed_row :: "real list \<Rightarrow> nat \<Rightarrow> nat \<Rightarrow> real list \<Rightarrow> real" where
  "packed_row r n j x = (\<Sum>k<n - j. r ! (row_start n j + k) * x ! (j + k))"

text \<open>
  The packed factor holds all \<open>n (n + 1) / 2\<close> entries and no diagonal entry of \<open>R\<close> is
  zero.
\<close>

definition nonsingular :: "real list \<Rightarrow> nat \<Rightarrow> bool" where
  "nonsingular r n = (row_start n n \<le> length r \<and> (\<forall>j<n. r ! row_start n j \<noteq> 0))"

text \<open>The rows \<open>j, \<dots>, n - 1\<close> of the system \<open>R x = qtb\<close> hold.\<close>

definition gn_solved :: "real list \<Rightarrow> real list \<Rightarrow> nat \<Rightarrow> nat \<Rightarrow> real list \<Rightarrow> bool" where
  "gn_solved r qtb n j x = (length x = n \<and> (\<forall>i. j \<le> i \<and> i < n \<longrightarrow> packed_row r n i x = qtb ! i))"

text \<open>
  The part of entry \<open>i\<close> of \<open>R\<^sup>T qtb\<close> that the rows before \<open>j\<close> contribute:
  \<open>\<Sum>\<^sub>m\<^sub><\<^sub>j R(m,i) qtb\<^sub>m\<close>.
\<close>

definition col_partial :: "real list \<Rightarrow> real list \<Rightarrow> nat \<Rightarrow> nat \<Rightarrow> nat \<Rightarrow> real" where
  "col_partial r qtb n j i = (\<Sum>m<j. r ! (row_start n m + (i - m)) * qtb ! m)"

text \<open>
  The state of \<open>wa1\<close> when the gradient loop has done the rows before \<open>j\<close>: the
  entries before \<open>j\<close> are final, the others hold their partial sums.
\<close>

definition grad_state :: "real list \<Rightarrow> real list \<Rightarrow> real list \<Rightarrow> nat \<Rightarrow> nat \<Rightarrow> real list \<Rightarrow> bool" where
  "grad_state r diag qtb n j w =
     (length w = n \<and>
      (\<forall>i<n. w ! i = (if i < j then col_partial r qtb n (Suc i) i / diag ! i
                       else col_partial r qtb n j i)))"


section \<open>Skyline in-place LU\<close>

subsection \<open>The skyline matrix\<close>

text \<open>
  Modelled from the spec: the skyline matrix and its iterators are the storage
  collaborator of the factorisation and lie outside its file. The spec has the matrix
  store "only entries within each row/column's variable bandwidth (profile), plus the
  diagonal", and expose "per-row/column iterators over only the structurally-nonzero
  lower/upper entries plus a direct diagonal accessor".

  The diagonal is an array of its own. The entries below the diagonal are kept in one
  array and those above it in another, outer index after outer index: entry \<open>k\<close> of
  \<open>lowerStart\<close> is where the lower entries of outer index \<open>k\<close> begin, and
  \<open>lowerProfile ! k\<close> is how many there are (likewise for the upper part).
  In row-major storage the lower entries of row \<open>k\<close> are those of the columns
  \<open>k - lowerProfile k, \<dots>, k - 1\<close> and the upper entries of column \<open>k\<close> those of the
  rows \<open>k - upperProfile k, \<dots>, k - 1\<close>. In column-major storage the lower entries of
  column \<open>k\<close> are those of the rows \<open>k + 1, \<dots>, k + lowerProfile k\<close> and the upper entries
  of row \<open>k\<close> those of the columns \<open>k + 1, \<dots>, k + upperProfile k\<close>.
\<close>

record skyline =
  IsRowMajor :: bool
  sk_rows :: nat
  sk_cols :: nat
  sk_diag :: "real list"
  sk_lower :: "real list"
  sk_upper :: "real list"
  lowerProfile :: "nat list"
  upperProfile :: "nat list"
  lowerStart :: "nat list"
  upperStart :: "nat list"

text \<open>
  An unchecked read or write of a value array or of a dense vector: an index outside
  the array has no defined behaviour in the source and is the result \<open>OutOfBounds\<close> here.
\<close>

definition raw :: "real list \<Rightarrow> int \<Rightarrow> error + real" where
  "raw v i = (if 0 \<le> i \<and> i < int (length v) then Inr (v ! nat i) else Inl OutOfBounds)"

definition raw_set :: "real list \<Rightarrow> int \<Rightarrow> real \<Rightarrow> error + real list" where
  "raw_set v i a = (if 0 \<le> i \<and> i < int (length v) then Inr (v[nat i := a]) else Inl OutOfBounds)"

definition bind_err :: "error + 'a \<Rightarrow> ('a \<Rightarrow> error + 'b) \<Rightarrow> error + 'b" where
  "bind_err m f = (case m of Inl e \<Rightarrow> Inl e | Inr v \<Rightarrow> f v)"

text \<open>
  An inner iterator: the outer index it walks, its position \<open>m_id\<close> in the value array,
  and the range \<open>[m_start, m_end)\<close> of that outer index.
\<close>

record iter =
  m_outer :: nat
  m_id :: int
  m_start :: int
  m_end :: int

definition InnerLowerIterator :: "skyline \<Rightarrow> nat \<Rightarrow> iter" where
  "InnerLowerIterator m outer =
     \<lparr>m_outer = outer, m_id = int (lowerStart m ! outer), m_start = int (lowerStart m ! outer),
      m_end = int (lowerStart m ! (outer + 1))\<rparr>"

definition InnerUpperIterator :: "skyline \<Rightarrow> nat \<Rightarrow> iter" where
  "InnerUpperIterator m outer =
     \<lparr>m_outer = outer, m_id = int (upperStart m ! outer), m_start = int (upperStart m ! outer),
      m_end = int (upperStart m ! (outer + 1))\<rparr>"

text \<open>\<open>operator bool\<close>, \<open>operator++\<close> and \<open>operator+=\<close>\<close>

definition it_ok :: "iter \<Rightarrow> bool" where
  "it_ok it = (m_id it < m_end it \<and> m_id it \<ge> m_start it)"

definition it_inc :: "iter \<Rightarrow> iter" where
  "it_inc it = it\<lparr>m_id := m_id it + 1\<rparr>"

definition it_add :: "iter \<Rightarrow> int \<Rightarrow> iter" where
  "it_add it shift = it\<lparr>m_id := m_id it + shift\<rparr>"

text \<open>\<open>index()\<close>, \<open>row()\<close>, \<open>col()\<close> and \<open>size()\<close> of a lower and of an upper iterator\<close>

definition lower_index :: "skyline \<Rightarrow> iter \<Rightarrow> int" where
  "lower_index m it =
     (if IsRowMajor m
      then int (m_outer it) - int (lowerProfile m ! m_outer it) + (m_id it - m_start it)
      else int (m_outer it) + (m_id it - m_start it) + 1)"

definition lower_row :: "skyline \<Rightarrow> iter \<Rightarrow> int" where
  "lower_row m it = (if IsRowMajor m then int (m_outer it) else lower_index m it)"

definition lower_col :: "skyline \<Rightarrow> iter \<Rightarrow> int" where
  "lower_col m it = (if IsRowMajor m then lower_index m it else int (m_outer it))"

definition lower_size :: "skyline \<Rightarrow> iter \<Rightarrow> nat" where
  "lower_size m it = lowerProfile m ! m_outer it"

definition upper_index :: "skyline \<Rightarrow> iter \<Rightarrow> int" where
  "upper_index m it =
     (if IsRowMajor m
      then int (m_outer it) - int (upperProfile m ! m_outer it) + (m_id it - m_start it)
      else int (m_outer it) + (m_id it - m_start it) + 1)"

definition upper_row :: "skyline \<Rightarrow> iter \<Rightarrow> int" where
  "upper_row m it = (if IsRowMajor m then upper_index m it else int (m_outer it))"

definition upper_col :: "skyline \<Rightarrow> iter \<Rightarrow> int" where
  "upper_col m it = (if IsRowMajor m then int (m_outer it) else upper_index m it)"

definition upper_size :: "skyline \<Rightarrow> iter \<Rightarrow> nat" where
  "upper_size m it = upperProfile m ! m_outer it"

text \<open>\<open>value()\<close> and the assignment through \<open>valueRef()\<close>\<close>

definition lower_value :: "skyline \<Rightarrow> iter \<Rightarrow> error + real" where
  "lower_value m it = raw (sk_lower m) (m_id it)"

definition upper_value :: "skyline \<Rightarrow> iter \<Rightarrow> error + real" where
  "upper_value m it = raw (sk_upper m) (m_id it)"

definition lower_assign :: "skyline \<Rightarrow> iter \<Rightarrow> real \<Rightarrow> error + skyline" where
  "lower_assign m it a =
     bind_err (raw_set (sk_lower m) (m_id it) a) (\<lambda>v. Inr (m\<lparr>sk_lower := v\<rparr>))"

definition upper_assign :: "skyline \<Rightarrow> iter \<Rightarrow> real \<Rightarrow> error + skyline" where
  "upper_assign m it a =
     bind_err (raw_set (sk_upper m) (m_id it) a) (\<lambda>v. Inr (m\<lparr>sk_upper := v\<rparr>))"

text \<open>The accessors by row and column\<close>

definition coeffDiag :: "skyline \<Rightarrow> nat \<Rightarrow> error + real" where
  "coeffDiag m i = raw (sk_diag m) (int i)"

definition assignDiag :: "skyline \<Rightarrow> nat \<Rightarrow> real \<Rightarrow> error + skyline" where
  "assignDiag m i a = bind_err (raw_set (sk_diag m) (int i) a) (\<lambda>v. Inr (m\<lparr>sk_diag := v\<rparr>))"

definition coeffExistLower :: "skyline \<Rightarrow> nat \<Rightarrow> nat \<Rightarrow> bool" where
  "coeffExistLower m row col =
     (if IsRowMajor m then int col \<ge> int row - int (lowerProfile m ! row)
      else row \<le> col + lowerProfile m ! col)"

definition coeffExistUpper :: "skyline \<Rightarrow> nat \<Rightarrow> nat \<Rightarrow> bool" where
  "coeffExistUpper m row col =
     (if IsRowMajor m then int row \<ge> int col - int (upperProfile m ! col)
      else col \<le> row + upperProfile m ! row)"

text \<open>The position of the entry \<open>(row, col)\<close> in the array of lower or upper values\<close>

definition lower_pos :: "skyline \<Rightarrow> nat \<Rightarrow> nat \<Rightarrow> int" where
  "lower_pos m row col =
     (if IsRowMajor m
      then int (lowerStart m ! row) + int col - (int row - int (lowerProfile m ! row))
      else int (lowerStart m ! col) + (int row - int col - 1))"

definition upper_pos :: "skyline \<Rightarrow> nat \<Rightarrow> nat \<Rightarrow> int" where
  "upper_pos m row col =
     (if IsRowMajor m
      then int (upperStart m ! col) + int row - (int col - int (upperProfile m ! col))
      else int (upperStart m ! row) + (int col - int row - 1))"

text \<open>
  \<open>coeffLower\<close> and \<open>coeffUpper\<close> read zero outside the profile; the references
  \<open>coeffRefLower\<close> and \<open>coeffRefUpper\<close> assert that the entry is stored.
\<close>

definition coeffLower :: "skyline \<Rightarrow> nat \<Rightarrow> nat \<Rightarrow> error + real" where
  "coeffLower m row col =
     (if coeffExistLower m row col then raw (sk_lower m) (lower_pos m row col) else Inr 0)"

definition coeffUpper :: "skyline \<Rightarrow> nat \<Rightarrow> nat \<Rightarrow> error + real" where
  "coeffUpper m row col =
     (if coeffExistUpper m row col then raw (sk_upper m) (upper_pos m row col) else Inr 0)"

definition coeffRefLower :: "skyline \<Rightarrow> nat \<Rightarrow> nat \<Rightarrow> error + real" where
  "coeffRefLower m row col =
     (if coeffExistLower m row col then raw (sk_lower m) (lower_pos m row col)
      else Inl AssertionFailed)"

definition assignLower :: "skyline \<Rightarrow> nat \<Rightarrow> nat \<Rightarrow> real \<Rightarrow> error + skyline" where
  "assignLower m row col a =
     (if coeffExistLower m row col
      then bind_err (raw_set (sk_lower m) (lower_pos m row col) a) (\<lambda>v. Inr (m\<lparr>sk_lower := v\<rparr>))
      else Inl AssertionFailed)"

definition assignUpper :: "skyline \<Rightarrow> nat \<Rightarrow> nat \<Rightarrow> real \<Rightarrow> error + skyline" where
  "assignUpper m row col a =
     (if coeffExistUpper m row col
      then bind_err (raw_set (sk_upper m) (upper_pos m row col) a) (\<lambda>v. Inr (m\<lparr>sk_upper := v\<rparr>))
      else Inl AssertionFailed)"

subsection \<open>compute, for column-major storage\<close>

text \<open>
  The quotient \<open>a / pivot\<close> of the model is that of the reals, with \<open>a / 0 = 0\<close>; the
  source divides floating-point numbers and gets an infinity or a NaN from a zero
  pivot. The statements about the factorisation are for nonzero pivots.

  \<open>for (InnerLowerIterator lIt(m_lu, col); lIt; ++lIt) lIt.valueRef() /= pivot;\<close>
\<close>

function scale_lower :: "real \<Rightarrow> skyline \<Rightarrow> iter \<Rightarrow> error + skyline" where
  "scale_lower pivot m lIt =
     (if it_ok lIt then
        (case lower_value m lIt of
           Inl e \<Rightarrow> Inl e
         | Inr v \<Rightarrow>
             (case lower_assign m lIt (v / pivot) of
                Inl e \<Rightarrow> Inl e
              | Inr m1 \<Rightarrow> scale_lower pivot m1 (it_inc lIt)))
      else Inr m)"
  by pat_completeness auto
termination
  by (relation "measure (\<lambda>(pivot, m, lIt). nat (m_end lIt - m_id lIt))")
     (auto simp: it_ok_def it_inc_def)

text \<open>
  \<open>for (++uItPivot; uIt && uItPivot;) { uIt.valueRef() -= uItPivot.value() * coef;
  ++uIt; ++uItPivot; }\<close>, from the iterators after the \<open>++uItPivot\<close>
\<close>

function upper_row_update :: "real \<Rightarrow> skyline \<Rightarrow> iter \<Rightarrow> iter \<Rightarrow> error + skyline" where
  "upper_row_update coef m uIt uItPivot =
     (if it_ok uIt \<and> it_ok uItPivot then
        (case upper_value m uItPivot of
           Inl e \<Rightarrow> Inl e
         | Inr pv \<Rightarrow>
             (case upper_value m uIt of
                Inl e \<Rightarrow> Inl e
              | Inr uv \<Rightarrow>
                  (case upper_assign m uIt (uv - pv * coef) of
                     Inl e \<Rightarrow> Inl e
                   | Inr m1 \<Rightarrow> upper_row_update coef m1 (it_inc uIt) (it_inc uItPivot))))
      else Inr m)"
  by pat_completeness auto
termination
  by (relation "measure (\<lambda>(coef, m, uIt, uItPivot). nat (m_end uIt - m_id uIt))")
     (auto simp: it_ok_def it_inc_def)

text \<open>
  The body of the first \<open>for (rrow = row + 1; rrow < rows; rrow++)\<close> loop ("upper matrix
  update, contiguous memory access"), on the state \<open>(m_lu, lIt)\<close>
\<close>

definition upper_update_step :: "nat \<Rightarrow> nat \<Rightarrow> skyline \<times> iter \<Rightarrow> error + skyline \<times> iter" where
  "upper_update_step row rrow = (\<lambda>(m, lIt).
     let uItPivot = InnerUpperIterator m row;
         uIt = InnerUpperIterator m rrow
     in bind_err (lower_value m lIt) (\<lambda>coef.
        let uItPivot1 = it_add uItPivot (int rrow - int row - 1)
        in bind_err (upper_row_update coef m uIt (it_inc uItPivot1)) (\<lambda>m1.
           Inr (m1, it_inc lIt))))"

text \<open>
  \<open>for (i = 0; i < rrow - row - 1; i++) { m_lu.coeffRefLower(rrow, row + i + 1) -=
  uItPivot.value() * coef; ++uItPivot; }\<close>, on the state \<open>(m_lu, uItPivot)\<close>
\<close>

definition lower_entry_step ::
  "real \<Rightarrow> nat \<Rightarrow> nat \<Rightarrow> nat \<Rightarrow> skyline \<times> iter \<Rightarrow> error + skyline \<times> iter" where
  "lower_entry_step coef row rrow i = (\<lambda>(m, uItPivot).
     bind_err (upper_value m uItPivot) (\<lambda>pv.
     bind_err (coeffRefLower m rrow (row + i + 1)) (\<lambda>old.
     bind_err (assignLower m rrow (row + i + 1) (old - pv * coef)) (\<lambda>m1.
       Inr (m1, it_inc uItPivot)))))"

text \<open>
  The body of the second loop over \<open>rrow\<close> ("non contiguous memory access"), on the state
  \<open>(m_lu, lIt3)\<close>
\<close>

definition lower_update_step :: "nat \<Rightarrow> nat \<Rightarrow> skyline \<times> iter \<Rightarrow> error + skyline \<times> iter" where
  "lower_update_step row rrow = (\<lambda>(m, lIt3).
     let uItPivot = InnerUpperIterator m row
     in bind_err (lower_value m lIt3) (\<lambda>coef.
        bind_err (fold_err (lower_entry_step coef row rrow) [0..<rrow - row - 1] (m, uItPivot))
          (\<lambda>(m1, uItPivot1). Inr (m1, it_inc lIt3))))"

text \<open>The body of the third loop over \<open>rrow\<close> ("update diag"), on the state \<open>(m_lu, lIt2)\<close>\<close>

definition diag_update_step :: "nat \<Rightarrow> nat \<Rightarrow> skyline \<times> iter \<Rightarrow> error + skyline \<times> iter" where
  "diag_update_step row rrow = (\<lambda>(m, lIt2).
     let uItPivot = InnerUpperIterator m row
     in bind_err (lower_value m lIt2) (\<lambda>coef.
        let uItPivot1 = it_add uItPivot (int rrow - int row - 1)
        in bind_err (upper_value m uItPivot1) (\<lambda>pv.
           bind_err (coeffDiag m rrow) (\<lambda>d.
           bind_err (assignDiag m rrow (d - pv * coef)) (\<lambda>m1.
             Inr (m1, it_inc lIt2))))))"

text \<open>The body of \<open>for (row = 0; row < rows; row++)\<close>\<close>

definition compute_row :: "nat \<Rightarrow> skyline \<Rightarrow> error + skyline" where
  "compute_row row m =
     bind_err (coeffDiag m row) (\<lambda>pivot.
     bind_err (scale_lower pivot m (InnerLowerIterator m row)) (\<lambda>m1.
     bind_err (fold_err (upper_update_step row) [row + 1..<sk_rows m1]
                 (m1, InnerLowerIterator m1 row)) (\<lambda>(m2, lIt).
     bind_err (fold_err (lower_update_step row) [row + 1..<sk_rows m2]
                 (m2, InnerLowerIterator m2 row)) (\<lambda>(m3, lIt3).
     bind_err (fold_err (diag_update_step row) [row + 1..<sk_rows m3]
                 (m3, InnerLowerIterator m3 row)) (\<lambda>(m4, lIt2).
       Inr m4)))))"

definition lu_compute :: "skyline \<Rightarrow> error + skyline" where
  "lu_compute m =
     (if sk_rows m \<noteq> sk_cols m then Inl AssertionFailed
      else if IsRowMajor m then Inl AssertionFailed
      else fold_err compute_row [0..<sk_rows m] m)"

subsection \<open>computeRowMajor\<close>

text \<open>
  \<open>for (k = 0; k < stop; ++k) { newCoeff = newCoeff - lIt.value() * uIt.value(); ++lIt;
  ++uIt; }\<close>, on the state \<open>(newCoeff, lIt, uIt)\<close>
\<close>

definition dot_step ::
  "skyline \<Rightarrow> nat \<Rightarrow> real \<times> iter \<times> iter \<Rightarrow> error + real \<times> iter \<times> iter" where
  "dot_step m k = (\<lambda>(newCoeff, lIt, uIt).
     bind_err (lower_value m lIt) (\<lambda>lv.
     bind_err (upper_value m uIt) (\<lambda>uv.
       Inr (newCoeff - lv * uv, it_inc lIt, it_inc uIt))))"

text \<open>
  The alignment of the two iterators (\<open>if (offset > 0) uIt += offset; else lIt +=
  -offset;\<close>) followed by the loop above; the result is the final \<open>newCoeff\<close>.
\<close>

definition aligned_dot ::
  "skyline \<Rightarrow> iter \<Rightarrow> iter \<Rightarrow> int \<Rightarrow> int \<Rightarrow> real \<Rightarrow> error + real" where
  "aligned_dot m lIt uIt offset stop newCoeff =
     (let uIt1 = (if offset > 0 then it_add uIt offset else uIt);
          lIt1 = (if offset > 0 then lIt else it_add lIt (- offset))
      in bind_err (fold_err (dot_step m) [0..<nat stop] (newCoeff, lIt1, uIt1))
           (\<lambda>(newCoeff1, lIt2, uIt2). Inr newCoeff1))"

text \<open>The body of \<open>for (col = llIt.col(); col < row; col++)\<close>\<close>

definition rm_lower_step :: "nat \<Rightarrow> nat \<Rightarrow> skyline \<Rightarrow> error + skyline" where
  "rm_lower_step row col m =
     (if coeffExistLower m row col then
        bind_err (coeffDiag m col) (\<lambda>diag.
          let lIt = InnerLowerIterator m row;
              uIt = InnerUpperIterator m col;
              offset = lower_col m lIt - upper_row m uIt;
              stop = (if offset > 0 then int col - lower_col m lIt else int col - upper_row m uIt)
          in bind_err (coeffLower m row col) (\<lambda>newCoeff.
             bind_err (aligned_dot m lIt uIt offset stop newCoeff) (\<lambda>newCoeff1.
               assignLower m row col (newCoeff1 / diag))))
      else Inr m)"

text \<open>The body of \<open>for (rrow = uuIt.row(); rrow < col; rrow++)\<close>, with \<open>col = row\<close>\<close>

definition rm_upper_step :: "nat \<Rightarrow> nat \<Rightarrow> skyline \<Rightarrow> error + skyline" where
  "rm_upper_step col rrow m =
     (let lIt = InnerLowerIterator m rrow;
          uIt = InnerUpperIterator m col;
          offset = lower_col m lIt - upper_row m uIt;
          stop = (if offset > 0 then int rrow - lower_col m lIt else int rrow - upper_row m uIt)
      in bind_err (coeffUpper m rrow col) (\<lambda>newCoeff.
         bind_err (aligned_dot m lIt uIt offset stop newCoeff) (\<lambda>newCoeff1.
           assignUpper m rrow col newCoeff1)))"

text \<open>The update of the diagonal entry of \<open>row\<close>\<close>

definition rm_diag_step :: "nat \<Rightarrow> skyline \<Rightarrow> error + skyline" where
  "rm_diag_step row m =
     (let lIt = InnerLowerIterator m row;
          uIt = InnerUpperIterator m row;
          offset = lower_col m lIt - upper_row m uIt;
          stop = (if offset > 0 then int (lower_size m lIt) else int (upper_size m uIt))
      in bind_err (coeffDiag m row) (\<lambda>newCoeff.
         bind_err (aligned_dot m lIt uIt offset stop newCoeff) (\<lambda>newCoeff1.
           assignDiag m row newCoeff1)))"

text \<open>The body of \<open>for (row = 0; row < rows; row++)\<close>\<close>

definition computeRowMajor_row :: "nat \<Rightarrow> skyline \<Rightarrow> error + skyline" where
  "computeRowMajor_row row m =
     bind_err (fold_err (rm_lower_step row)
                 [nat (lower_col m (InnerLowerIterator m row))..<row] m) (\<lambda>m1.
     bind_err (fold_err (rm_upper_step row)
                 [nat (upper_row m1 (InnerUpperIterator m1 row))..<row] m1) (\<lambda>m2.
       rm_diag_step row m2))"

definition lu_computeRowMajor :: "skyline \<Rightarrow> error + skyline" where
  "lu_computeRowMajor m =
     (if sk_rows m \<noteq> sk_cols m then Inl AssertionFailed
      else if \<not> IsRowMajor m then Inl AssertionFailed
      else fold_err computeRowMajor_row [0..<sk_rows m] m)"

subsection \<open>solve\<close>

text \<open>
  \<open>while (lIt.col() < row) { newVal -= x->coeff(col++) * lIt.value(); ++lIt; }\<close>, where
  \<open>lIt\<close> is the lower iterator of \<open>row\<close> at position \<open>pos\<close>
\<close>

function forward_loop ::
  "skyline \<Rightarrow> real list \<Rightarrow> nat \<Rightarrow> real \<Rightarrow> int \<Rightarrow> int \<Rightarrow> error + real" where
  "forward_loop m x row newVal col pos =
     (if lower_col m ((InnerLowerIterator m row)\<lparr>m_id := pos\<rparr>) < int row then
        (case raw x col of
           Inl e \<Rightarrow> Inl e
         | Inr xv \<Rightarrow>
             (case lower_value m ((InnerLowerIterator m row)\<lparr>m_id := pos\<rparr>) of
                Inl e \<Rightarrow> Inl e
              | Inr lv \<Rightarrow> forward_loop m x row (newVal - xv * lv) (col + 1) (pos + 1)))
      else Inr newVal)"
  by pat_completeness auto
termination
  by (relation "measure (\<lambda>(m, x, row, newVal, col, pos).
        nat (int row - lower_col m ((InnerLowerIterator m row)\<lparr>m_id := pos\<rparr>)))")
     (auto simp: lower_col_def lower_index_def InnerLowerIterator_def split: if_splits)

text \<open>The body of \<open>for (row = 0; row < rows; row++)\<close>, on the vector \<open>x\<close>\<close>

definition forward_row :: "skyline \<Rightarrow> real list \<Rightarrow> nat \<Rightarrow> real list \<Rightarrow> error + real list" where
  "forward_row m b row x =
     bind_err (raw b (int row)) (\<lambda>bv.
     bind_err (raw_set x (int row) bv) (\<lambda>x1.
     bind_err (raw x1 (int row)) (\<lambda>newVal.
       let lIt = InnerLowerIterator m row
       in bind_err (forward_loop m x1 row newVal (lower_col m lIt) (m_id lIt)) (\<lambda>newVal1.
            raw_set x1 (int row) newVal1))))"

text \<open>\<open>while (uIt) { x->coeffRef(uIt.row()) -= x_col * uIt.value(); uIt += -1; }\<close>\<close>

function backward_loop :: "skyline \<Rightarrow> real \<Rightarrow> real list \<Rightarrow> iter \<Rightarrow> error + real list" where
  "backward_loop m x_col x uIt =
     (if it_ok uIt then
        (case upper_value m uIt of
           Inl e \<Rightarrow> Inl e
         | Inr uv \<Rightarrow>
             (case raw x (upper_row m uIt) of
                Inl e \<Rightarrow> Inl e
              | Inr old \<Rightarrow>
                  (case raw_set x (upper_row m uIt) (old - x_col * uv) of
                     Inl e \<Rightarrow> Inl e
                   | Inr x1 \<Rightarrow> backward_loop m x_col x1 (it_add uIt (- 1)))))
      else Inr x)"
  by pat_completeness auto
termination
  by (relation "measure (\<lambda>(m, x_col, x, uIt). nat (m_id uIt - m_start uIt + 1))")
     (auto simp: it_ok_def it_add_def)

text \<open>The body of \<open>for (col = rows - 1; col > 0; col--)\<close>, on the vector \<open>x\<close>\<close>

definition backward_col :: "skyline \<Rightarrow> nat \<Rightarrow> real list \<Rightarrow> error + real list" where
  "backward_col m col x =
     bind_err (raw x (int col)) (\<lambda>xv.
     bind_err (coeffDiag m col) (\<lambda>d.
     bind_err (raw_set x (int col) (xv / d)) (\<lambda>x1.
     bind_err (raw x1 (int col)) (\<lambda>x_col.
       let uIt = InnerUpperIterator m col
       in backward_loop m x_col x1 (it_add uIt (int (upper_size m uIt) - 1))))))"

text \<open>
  \<open>solve(b, x, transposed)\<close> on the factored matrix: the result is the returned flag
  together with the vector left in \<open>x\<close>.
\<close>

definition lu_solve ::
  "skyline \<Rightarrow> real list \<Rightarrow> real list \<Rightarrow> int \<Rightarrow> error + bool \<times> real list" where
  "lu_solve m b x transposed =
     bind_err (fold_err (forward_row m b) [0..<sk_rows m] x) (\<lambda>x1.
     bind_err (fold_err (backward_col m) (rev [1..<sk_rows m]) x1) (\<lambda>x2.
     bind_err (raw x2 0) (\<lambda>xv.
     bind_err (coeffDiag m 0) (\<lambda>d.
     bind_err (raw_set x2 0 (xv / d)) (\<lambda>x3.
       Inr (True, x3))))))"

subsection \<open>The factorisation object\<close>

text \<open>
  The members of \<open>SkylineInplaceLU\<close>. A \<open>bool\<close> member that no statement has assigned
  holds an indeterminate value: \<open>None\<close>. \<open>m_lu\<close> is a reference to the caller's matrix,
  which the factorisation overwrites.
\<close>

record SkylineInplaceLU =
  m_precision :: real
  m_flags :: int
  m_status :: int
  m_succeeded :: "bool option"
  m_lu :: skyline

definition obj_compute :: "SkylineInplaceLU \<Rightarrow> error + SkylineInplaceLU" where
  "obj_compute this = bind_err (lu_compute (m_lu this)) (\<lambda>m. Inr (this\<lparr>m_lu := m\<rparr>))"

definition obj_computeRowMajor :: "SkylineInplaceLU \<Rightarrow> error + SkylineInplaceLU" where
  "obj_computeRowMajor this =
     bind_err (lu_computeRowMajor (m_lu this)) (\<lambda>m. Inr (this\<lparr>m_lu := m\<rparr>))"

text \<open>
  The constructor \<open>SkylineInplaceLU(matrix, flags)\<close>; \<open>dummy_precision\<close> is
  \<open>Eigen::dummy_precision<RealScalar>()\<close>.
\<close>

definition SkylineInplaceLU_ctor :: "real \<Rightarrow> skyline \<Rightarrow> int \<Rightarrow> error + SkylineInplaceLU" where
  "SkylineInplaceLU_ctor dummy_precision matrix flags =
     (let this = \<lparr>m_precision = 0.1 * dummy_precision, m_flags = flags, m_status = 0,
                  m_succeeded = None, m_lu = matrix\<rparr>
      in if IsRowMajor (m_lu this) then obj_computeRowMajor this else obj_compute this)"

definition setPrecision :: "real \<Rightarrow> SkylineInplaceLU \<Rightarrow> SkylineInplaceLU" where
  "setPrecision v this = this\<lparr>m_precision := v\<rparr>"

definition setFlags :: "int \<Rightarrow> SkylineInplaceLU \<Rightarrow> SkylineInplaceLU" where
  "setFlags f this = this\<lparr>m_flags := f\<rparr>"

definition setOrderingMethod :: "int \<Rightarrow> SkylineInplaceLU \<Rightarrow> SkylineInplaceLU" where
  "setOrderingMethod f this = this\<lparr>m_flags := f\<rparr>"

definition solve :: "SkylineInplaceLU \<Rightarrow> real list \<Rightarrow> real list \<Rightarrow> int \<Rightarrow> error + bool \<times> real list" where
  "solve this b x transposed = lu_solve (m_lu this) b x transposed"

definition succeeded :: "SkylineInplaceLU \<Rightarrow> bool option" where
  "succeeded this = m_succeeded this"

text \<open>
  A call of a member function on the object, and its effect on the object. \<open>solve\<close> is
  a \<open>const\<close> member: it leaves the object as it is, whatever it returns.
\<close>

datatype member_call =
    Call_setPrecision real
  | Call_setFlags int
  | Call_setOrderingMethod int
  | Call_compute
  | Call_computeRowMajor
  | Call_solve "real list" "real list" int

fun run_call :: "member_call \<Rightarrow> SkylineInplaceLU \<Rightarrow> error + SkylineInplaceLU" where
  "run_call (Call_setPrecision v) this = Inr (setPrecision v this)"
| "run_call (Call_setFlags f) this = Inr (setFlags f this)"
| "run_call (Call_setOrderingMethod f) this = Inr (setOrderingMethod f this)"
| "run_call Call_compute this = obj_compute this"
| "run_call Call_computeRowMajor this = obj_computeRowMajor this"
| "run_call (Call_solve b x transposed) this =
     bind_err (solve this b x transposed) (\<lambda>r. Inr this)"

subsection \<open>The matrix a skyline storage stands for, and two small matrices\<close>

text \<open>
  The coefficient \<open>(i, j)\<close> of the stored matrix: the diagonal entry, the stored lower
  or upper entry, and zero outside the profile.
\<close>

definition sk_coeff :: "skyline \<Rightarrow> nat \<Rightarrow> nat \<Rightarrow> real" where
  "sk_coeff m i j =
     (if i = j then sk_diag m ! i
      else if j < i then
        (if coeffExistLower m i j then sk_lower m ! nat (lower_pos m i j) else 0)
      else
        (if coeffExistUpper m i j then sk_upper m ! nat (upper_pos m i j) else 0))"

text \<open>The product of the stored matrix with a vector\<close>

definition sk_mult :: "skyline \<Rightarrow> real list \<Rightarrow> real list" where
  "sk_mult m x = map (\<lambda>i. \<Sum>j\<leftarrow>[0..<sk_cols m]. sk_coeff m i j * x ! j) [0..<sk_rows m]"

text \<open>
  The matrix with the rows \<open>(2, 1)\<close> and \<open>(4, 5)\<close>, strictly diagonally dominant, in
  column-major and in row-major skyline storage.
\<close>

definition A_col :: skyline where
  "A_col = \<lparr>IsRowMajor = False, sk_rows = 2, sk_cols = 2, sk_diag = [2, 5], sk_lower = [4],
             sk_upper = [1], lowerProfile = [1, 0], upperProfile = [1, 0],
             lowerStart = [0, 1, 1], upperStart = [0, 1, 1]\<rparr>"

definition A_row :: skyline where
  "A_row = \<lparr>IsRowMajor = True, sk_rows = 2, sk_cols = 2, sk_diag = [2, 5], sk_lower = [4],
             sk_upper = [1], lowerProfile = [0, 1], upperProfile = [0, 1],
             lowerStart = [0, 0, 1], upperStart = [0, 0, 1]\<rparr>"

text \<open>
  The tridiagonal matrix with the rows \<open>(4, 1, 0)\<close>, \<open>(1, 5, 2)\<close> and \<open>(0, 1, 6)\<close> in
  column-major skyline storage.
\<close>

definition T_col :: skyline where
  "T_col = \<lparr>IsRowMajor = False, sk_rows = 3, sk_cols = 3, sk_diag = [4, 5, 6], sk_lower = [1, 1],
             sk_upper = [1, 2], lowerProfile = [1, 1, 0], upperProfile = [1, 1, 0],
             lowerStart = [0, 1, 2, 2], upperStart = [0, 1, 2, 2]\<rparr>"

text \<open>
  The storage invariant of a skyline matrix that \<open>solve\<close> relies on: there is one diagonal
  entry per row; the start of each row or column in a value array is the start of the one
  before plus its profile, and lies inside the array; and in row-major storage a row has
  no more entries below or above the diagonal than there are columns before the diagonal.
\<close>

definition wf_skyline :: "skyline \<Rightarrow> bool" where
  "wf_skyline m =
     (length (sk_diag m) = sk_rows m \<and>
      (\<forall>k<sk_rows m.
         lowerStart m ! (k + 1) = lowerStart m ! k + lowerProfile m ! k \<and>
         lowerStart m ! (k + 1) \<le> length (sk_lower m) \<and>
         upperStart m ! (k + 1) = upperStart m ! k + upperProfile m ! k \<and>
         upperStart m ! (k + 1) \<le> length (sk_upper m) \<and>
         (IsRowMajor m \<longrightarrow> lowerProfile m ! k \<le> k \<and> upperProfile m ! k \<le> k)))"

section \<open>Properties of the eigen solver\<close>

subsection \<open>The QR step does not read the matrix of eigenvectors\<close>

lemma qr_rotation_indep:
  "qr_rotation cb start endi k (d, s, x, z, q) = (d1, s1, x1, z1, q1) \<Longrightarrow>
   \<exists>q1'. qr_rotation cb start endi k (d, s, x, z, q') = (d1, s1, x1, z1, q1')"
  by (auto simp: qr_rotation_def Let_def split: prod.splits)

lemma fold_qr_rotation_indep:
  "fold (qr_rotation cb start endi) ks (d, s, x, z, q) = (d1, s1, x1, z1, q1) \<Longrightarrow>
   \<exists>q1'. fold (qr_rotation cb start endi) ks (d, s, x, z, q') = (d1, s1, x1, z1, q1')"
proof (induction ks arbitrary: d s x z q q')
  case Nil
  then show ?case by simp
next
  case (Cons k ks)
  obtain d2 s2 x2 z2 q2 where st: "qr_rotation cb start endi k (d, s, x, z, q) = (d2, s2, x2, z2, q2)"
    by (metis prod_cases5)
  from qr_rotation_indep[OF st] obtain q2' where
    st': "qr_rotation cb start endi k (d, s, x, z, q') = (d2, s2, x2, z2, q2')" by blast
  from Cons.prems st have "fold (qr_rotation cb start endi) ks (d2, s2, x2, z2, q2) = (d1, s1, x1, z1, q1)"
    by simp
  from Cons.IH[OF this] obtain q1' where
    "fold (qr_rotation cb start endi) ks (d2, s2, x2, z2, q2') = (d1, s1, x1, z1, q1')" by blast
  with st' show ?case by auto
qed

lemma qr_step_indep:
  "fst (ei_tridiagonal_qr_step cb diag subdiag start endi q n) =
   fst (ei_tridiagonal_qr_step cb diag subdiag start endi q' n) \<and>
   fst (snd (ei_tridiagonal_qr_step cb diag subdiag start endi q n)) =
   fst (snd (ei_tridiagonal_qr_step cb diag subdiag start endi q' n))"
proof -
  let ?x = "diag ! start - (diag ! endi - (subdiag ! (endi - 1))\<^sup>2 /
     ((diag ! (endi - 1) - diag ! endi) * 0.5 + (if (diag ! (endi - 1) - diag ! endi) * 0.5 > 0 then 1 else - 1)
       * sqrt ((diag ! (endi - 1) - diag ! endi) * 0.5 * ((diag ! (endi - 1) - diag ! endi) * 0.5) + (subdiag ! (endi - 1))\<^sup>2)))"
  obtain d1 s1 x1 z1 q1 where a: "fold (qr_rotation cb start endi) [start..<endi] (diag, subdiag, ?x, subdiag ! start, q) = (d1, s1, x1, z1, q1)"
    by (metis prod_cases5)
  from fold_qr_rotation_indep[OF a] obtain q1' where
    b: "fold (qr_rotation cb start endi) [start..<endi] (diag, subdiag, ?x, subdiag ! start, q') = (d1, s1, x1, z1, q1')"
    by blast
  show ?thesis using a b by (simp add: ei_tridiagonal_qr_step_def Let_def)
qed

lemma loop_body_indep:
  assumes "same_tri st st'"
  shows "(case loop_body cb f n st of
            Inl r \<Rightarrow> (\<exists>r'. loop_body cb f' n st' = Inl r' \<and> fst r' = fst r \<and> fst (snd r') = fst (snd r))
          | Inr st1 \<Rightarrow> (\<exists>st1'. loop_body cb f' n st' = Inr st1' \<and> same_tri st1 st1'))"
proof -
  obtain d s v a b where st: "st = (d, s, v, a, b)" by (metis prod_cases5)
  with assms obtain v' where st': "st' = (d, s, v', a, b)"
    by (cases st') (auto simp: same_tri_def)
  show ?thesis
    using qr_step_indep[of cb d "deflate cb d s a b" "find_start (deflate cb d s a b) (find_end (deflate cb d s a b) b - 1)"
        "find_end (deflate cb d s a b) b" "if f then Some v else None" n "if f' then Some v' else None"]
    unfolding st st' loop_body_def
    by (auto simp: Let_def same_tri_def split: prod.splits)
qed

lemma qr_iterate_indep_aux:
  assumes run: "qr_iterate cb f n st = Some r"
  shows "\<forall>st'. same_tri st st' \<longrightarrow>
           (\<exists>r'. qr_iterate cb f' n st' = Some r' \<and> fst r' = fst r \<and> fst (snd r') = fst (snd r))"
proof (rule qr_iterate.raw_induct[where P = "\<lambda>cb f n st r. \<forall>st'. same_tri st st' \<longrightarrow>
           (\<exists>r'. qr_iterate cb f' n st' = Some r' \<and> fst r' = fst r \<and> fst (snd r') = fst (snd r))", OF _ run])
  fix qr_it cb f n st r
  assume IH: "\<And>cb f n st r. qr_it cb f n st = Some r \<Longrightarrow> \<forall>st'. same_tri st st' \<longrightarrow>
           (\<exists>r'. qr_iterate cb f' n st' = Some r' \<and> fst r' = fst r \<and> fst (snd r') = fst (snd r))"
    and step: "(case loop_body cb f n st of Inl r \<Rightarrow> Some r | Inr st1 \<Rightarrow> qr_it cb f n st1) = Some r"
  show "\<forall>st'. same_tri st st' \<longrightarrow>
           (\<exists>r'. qr_iterate cb f' n st' = Some r' \<and> fst r' = fst r \<and> fst (snd r') = fst (snd r))"
  proof (intro allI impI)
    fix st' assume rel: "same_tri st st'"
    show "\<exists>r'. qr_iterate cb f' n st' = Some r' \<and> fst r' = fst r \<and> fst (snd r') = fst (snd r)"
    proof (cases "loop_body cb f n st")
      case (Inl r0)
      with step have "r0 = r" by simp
      with loop_body_indep[OF rel, where cb=cb and f=f and n=n and f'=f'] Inl show ?thesis
        by (subst qr_iterate.simps) auto
    next
      case (Inr st1)
      with loop_body_indep[OF rel, where cb=cb and f=f and n=n and f'=f'] obtain st1' where
        b: "loop_body cb f' n st' = Inr st1'" and rel1: "same_tri st1 st1'" by auto
      from step Inr have "qr_it cb f n st1 = Some r" by simp
      from IH[OF this] rel1 obtain r' where "qr_iterate cb f' n st1' = Some r'" "fst r' = fst r" "fst (snd r') = fst (snd r)"
        by blast
      with b show ?thesis by (subst qr_iterate.simps) auto
    qed
  qed
qed

lemma qr_iterate_indep:
  assumes "same_tri st st'"
  shows "map_option (\<lambda>r. (fst r, fst (snd r))) (qr_iterate cb f n st) =
         map_option (\<lambda>r. (fst r, fst (snd r))) (qr_iterate cb f' n st')"
proof (cases "qr_iterate cb f n st")
  case None
  show ?thesis
  proof (cases "qr_iterate cb f' n st'")
    case None
    with \<open>qr_iterate cb f n st = None\<close> show ?thesis by simp
  next
    case (Some r')
    from assms have "same_tri st' st" by (simp add: same_tri_def)
    with qr_iterate_indep_aux[OF Some, where f'=f] obtain r where "qr_iterate cb f n st = Some r"
      by blast
    with None show ?thesis by simp
  qed
next
  case (Some r)
  from qr_iterate_indep_aux[OF Some, where f'=f'] assms obtain r' where
    "qr_iterate cb f' n st' = Some r'" "fst r' = fst r" "fst (snd r') = fst (snd r)" by blast
  with Some show ?thesis by simp
qed

lemma sort_step_fst: "fst (sort_step n i (ev, v)) = fst (sort_step n i (ev, v'))"
  by (simp add: sort_step_def Let_def)

lemma fold_sort_step_fst: "fst (fold (sort_step n) is (ev, v)) = fst (fold (sort_step n) is (ev, v'))"
proof (induction "is" arbitrary: ev v v')
  case Nil
  then show ?case by simp
next
  case (Cons i "is")
  have "fst (sort_step n i (ev, v)) = fst (sort_step n i (ev, v'))" by (rule sort_step_fst)
  then obtain e w w' where "sort_step n i (ev, v) = (e, w)" "sort_step n i (ev, v') = (e, w')"
    by (metis prod.collapse)
  with Cons.IH[of e w w'] show ?case by simp
qed

lemma sort_eigen_fst: "fst (sort_eigen n (ev, v)) = fst (sort_eigen n (ev, v'))"
  unfolding sort_eigen_def by (rule fold_sort_step_fst)

lemma compute_flag_indep:
  assumes "snd (decomposeInPlace cb matrix True) = snd (decomposeInPlace cb matrix False)"
  shows "map_option (map_sum id eigenvalues) (compute cb slv matrix True) =
         map_option (map_sum id eigenvalues) (compute cb slv matrix False)"
proof -
  obtain v d sd where t: "decomposeInPlace cb matrix True = (v, d, sd)" by (metis prod_cases3)
  with assms obtain v' where f: "decomposeInPlace cb matrix False = (v', d, sd)"
    by (cases "decomposeInPlace cb matrix False") auto
  let ?n = "cols matrix"
  have rel: "same_tri (map d [0..<?n], map sd [0..<?n - 1], v, 0, ?n - 1) (map d [0..<?n], map sd [0..<?n - 1], v', 0, ?n - 1)"
    by (simp add: same_tri_def)
  note q = qr_iterate_indep[OF rel, where cb=cb and f=True and n="?n" and f'=False]
  show ?thesis
  proof (cases "diagonalize cb matrix True")
    case None
    with q t f have "diagonalize cb matrix False = None" by (simp add: diagonalize_def Let_def)
    with None show ?thesis by (simp add: compute_def eigenvalues_def)
  next
    case (Some r)
    with q t f have "map_option (\<lambda>r. (fst r, fst (snd r))) (diagonalize cb matrix False) = Some (fst r, fst (snd r))"
      by (simp add: diagonalize_def Let_def)
    then obtain r' where r': "diagonalize cb matrix False = Some r'" "fst r' = fst r"
      by auto
    obtain a b c where r: "r = (a, b, c)" by (metis prod_cases3)
    with r' obtain b' c' where r'': "r' = (a, b', c')" by (cases r') auto
    from sort_eigen_fst[of ?n a c c'] show ?thesis
      using Some r' r r''
      by (auto simp: compute_def eigenvalues_def split: prod.splits)
  qed
qed

subsection \<open>The selection sort\<close>

lemma minCoeff_index_less: "xs \<noteq> [] \<Longrightarrow> minCoeff_index xs < length xs"
  by (induction xs) (auto simp: Let_def)

lemma minCoeff_index_le: "i < length xs \<Longrightarrow> xs ! minCoeff_index xs \<le> xs ! i"
proof (induction xs arbitrary: i)
  case Nil
  then show ?case by simp
next
  case (Cons x xs)
  show ?case
  proof (cases "xs = []")
    case True
    with Cons.prems show ?thesis by simp
  next
    case False
    show ?thesis
    proof (cases i)
      case 0
      then show ?thesis using False by (auto simp: Let_def)
    next
      case (Suc j)
      with Cons.prems have "j < length xs" by simp
      from Cons.IH[OF this] show ?thesis using False Suc by (auto simp: Let_def)
    qed
  qed
qed

lemma swap_at_nth:
  "i < length xs \<Longrightarrow> j < length xs \<Longrightarrow> q < length xs \<Longrightarrow>
   swap_at xs i j ! q = (if q = j then xs ! i else if q = i then xs ! j else xs ! q)"
  by (auto simp: swap_at_def nth_list_update)

lemma length_swap_at [simp]: "length (swap_at xs i j) = length xs"
  by (simp add: swap_at_def)

lemma sort_step_sorted:
  assumes inv: "sorted_upto n i ev" and i: "i < n - 1"
  shows "sorted_upto n (Suc i) (fst (sort_step n i (ev, v)))"
proof -
  from inv have len: "length ev = n" by (simp add: sorted_upto_def)
  let ?seg = "take (n - i) (drop i ev)"
  let ?k = "minCoeff_index ?seg"
  from len i have seg: "?seg = drop i ev" "length ?seg = n - i" "?seg \<noteq> []" by auto
  from minCoeff_index_less[OF seg(3)] seg(2) have k: "?k < n - i" by simp
  have kmin: "ev ! (i + ?k) \<le> ev ! q" if "i \<le> q" "q < n" for q
  proof -
    from that have "q - i < length ?seg" using seg(2) by simp
    from minCoeff_index_le[OF this] have "?seg ! ?k \<le> ?seg ! (q - i)" .
    with that len k show ?thesis by (simp add: seg(1))
  qed
  let ?ev' = "fst (sort_step n i (ev, v))"
  have ev': "?ev' = (if ?k > 0 then swap_at ev i (?k + i) else ev)"
    by (simp add: sort_step_def Let_def)
  have nth': "?ev' ! q = (if q = i then ev ! (i + ?k) else if q = ?k + i then ev ! i else ev ! q)"
    if "q < n" for q
    using that len k i by (auto simp: ev' swap_at_nth add.commute)
  have "length ?ev' = n" using len by (simp add: ev')
  moreover have "?ev' ! p \<le> ?ev' ! q" if pq: "p < Suc i" "p < q" "q < n" for p q
  proof (cases "p = i")
    case True
    with pq have "?ev' ! p = ev ! (i + ?k)" by (simp add: nth')
    moreover have "ev ! (i + ?k) \<le> ?ev' ! q"
      using pq True kmin[of q] kmin[of i] by (auto simp: nth')
    ultimately show ?thesis by simp
  next
    case False
    with pq have p: "p < i" by simp
    with pq k have "?ev' ! p = ev ! p" by (simp add: nth')
    moreover have "ev ! p \<le> ?ev' ! q"
      using inv p pq k i by (auto simp: nth' sorted_upto_def)
    ultimately show ?thesis by simp
  qed
  ultimately show ?thesis by (simp add: sorted_upto_def)
qed

lemma sort_step_pairs:
  assumes len: "length ev = n" "length v = n" and i: "i < n - 1"
  shows "mset (zip (fst (sort_step n i (ev, v))) (snd (sort_step n i (ev, v)))) = mset (zip ev v)
       \<and> length (fst (sort_step n i (ev, v))) = n \<and> length (snd (sort_step n i (ev, v))) = n"
proof -
  let ?seg = "take (n - i) (drop i ev)"
  let ?k = "minCoeff_index ?seg"
  from len i have seg: "length ?seg = n - i" "?seg \<noteq> []" by auto
  from minCoeff_index_less[OF seg(2)] seg(1) have k: "?k < n - i" by simp
  have "zip (swap_at ev i (?k + i)) (swap_at v i (?k + i)) = swap_at (zip ev v) i (?k + i)"
    using len k i by (simp add: swap_at_def zip_update)
  moreover have "mset (swap_at (zip ev v) i (?k + i)) = mset (zip ev v)"
    using len k i unfolding swap_at_def by (intro mset_swap) auto
  ultimately show ?thesis using len by (simp add: sort_step_def Let_def)
qed

lemma fold_sort_step:
  assumes "length ev = n" "length v = n" "m \<le> n - 1"
  shows "sorted_upto n m (fst (fold (sort_step n) [0..<m] (ev, v)))
       \<and> mset (zip (fst (fold (sort_step n) [0..<m] (ev, v))) (snd (fold (sort_step n) [0..<m] (ev, v)))) = mset (zip ev v)
       \<and> length (fst (fold (sort_step n) [0..<m] (ev, v))) = n
       \<and> length (snd (fold (sort_step n) [0..<m] (ev, v))) = n"
  using assms(3)
proof (induction m)
  case 0
  then show ?case using assms(1,2) by (simp add: sorted_upto_def)
next
  case (Suc m)
  then have IH: "sorted_upto n m (fst (fold (sort_step n) [0..<m] (ev, v)))"
     "mset (zip (fst (fold (sort_step n) [0..<m] (ev, v))) (snd (fold (sort_step n) [0..<m] (ev, v)))) = mset (zip ev v)"
     "length (fst (fold (sort_step n) [0..<m] (ev, v))) = n"
     "length (snd (fold (sort_step n) [0..<m] (ev, v))) = n" and m: "m < n - 1"
    by simp_all
  obtain e w where st: "fold (sort_step n) [0..<m] (ev, v) = (e, w)" by (metis prod.collapse)
  from sort_step_sorted[of n m e w] sort_step_pairs[of e n w m] IH m st
  show ?case by simp
qed

lemma sort_eigen_sorted:
  assumes "length ev = n" "length v = n"
  shows "sorted (fst (sort_eigen n (ev, v)))
       \<and> mset (zip (fst (sort_eigen n (ev, v))) (snd (sort_eigen n (ev, v)))) = mset (zip ev v)
       \<and> length (fst (sort_eigen n (ev, v))) = n \<and> length (snd (sort_eigen n (ev, v))) = n"
proof -
  note f = fold_sort_step[OF assms, of "n - 1"]
  let ?e = "fst (sort_eigen n (ev, v))"
  from f have s: "sorted_upto n (n - 1) ?e" by (simp add: sort_eigen_def)
  have "sorted ?e"
    unfolding sorted_iff_nth_mono_less
  proof (intro allI impI)
    fix p q assume "p < q" "q < length ?e"
    with s show "?e ! p \<le> ?e ! q" by (auto simp: sorted_upto_def)
  qed
  with f show ?thesis by (simp add: sort_eigen_def)
qed

subsection \<open>Sizes are kept by the loop\<close>

lemma keeps_cols_tridiagonal_collab: "keeps_cols tridiagonal_collab"
  by (simp add: keeps_cols_def tridiagonal_collab_def split: prod.splits)

lemma qr_rotation_lengths:
  assumes "keeps_cols cb" "qr_rotation cb start endi k (d, s, x, z, q) = (d1, s1, x1, z1, q1)"
  shows "length d1 = length d \<and> length s1 = length s \<and> map_option length q1 = map_option length q"
  using assms by (cases q) (auto simp: qr_rotation_def Let_def keeps_cols_def split: prod.splits if_splits)

lemma fold_qr_rotation_lengths:
  assumes "keeps_cols cb"
  shows "fold (qr_rotation cb start endi) ks (d, s, x, z, q) = (d1, s1, x1, z1, q1) \<Longrightarrow>
         length d1 = length d \<and> length s1 = length s \<and> map_option length q1 = map_option length q"
proof (induction ks arbitrary: d s x z q)
  case Nil
  then show ?case by simp
next
  case (Cons k ks)
  obtain d2 s2 x2 z2 q2 where st: "qr_rotation cb start endi k (d, s, x, z, q) = (d2, s2, x2, z2, q2)"
    by (metis prod_cases5)
  with Cons.prems have "fold (qr_rotation cb start endi) ks (d2, s2, x2, z2, q2) = (d1, s1, x1, z1, q1)"
    by simp
  from Cons.IH[OF this] qr_rotation_lengths[OF assms st] show ?case by simp
qed

lemma qr_step_lengths:
  assumes "keeps_cols cb" "ei_tridiagonal_qr_step cb d s start endi q n = (d1, s1, q1)"
  shows "length d1 = length d \<and> length s1 = length s \<and> map_option length q1 = map_option length q"
proof -
  let ?st = "fold (qr_rotation cb start endi) [start..<endi]
     (d, s, d ! start - (d ! endi - (s ! (endi - 1))\<^sup>2 /
        ((d ! (endi - 1) - d ! endi) * 0.5 + (if (d ! (endi - 1) - d ! endi) * 0.5 > 0 then 1 else - 1)
          * sqrt ((d ! (endi - 1) - d ! endi) * 0.5 * ((d ! (endi - 1) - d ! endi) * 0.5) + (s ! (endi - 1))\<^sup>2))),
      s ! start, q)"
  obtain d2 s2 x2 z2 q2 where a: "?st = (d2, s2, x2, z2, q2)" by (metis prod_cases5)
  from assms(2) a have "d1 = d2" "s1 = s2" "q1 = q2"
    by (simp_all add: ei_tridiagonal_qr_step_def Let_def)
  with fold_qr_rotation_lengths[OF assms(1) a] show ?thesis by simp
qed

lemma length_deflate [simp]: "length (deflate cb d s a b) = length s"
proof -
  have "length (fold (\<lambda>i sd. if ei_isMuchSmallerThan cb \<bar>sd ! i\<bar> (\<bar>d ! i\<bar> + \<bar>d ! (i + 1)\<bar>)
                   then sd[i := 0] else sd) ks s) = length s" for ks
    by (induction ks arbitrary: s) auto
  then show ?thesis by (simp add: deflate_def)
qed

lemma loop_body_lengths:
  assumes "keeps_cols cb"
  shows "(case loop_body cb f n (d, s, v, a, b) of
            Inl (d1, s1, v1) \<Rightarrow> length d1 = length d \<and> length v1 = length v
          | Inr (d1, s1, v1, a1, b1) \<Rightarrow> length d1 = length d \<and> length v1 = length v)"
proof -
  let ?s = "deflate cb d s a b"
  let ?e = "find_end ?s b"
  let ?r = "ei_tridiagonal_qr_step cb d ?s (find_start ?s (?e - 1)) ?e (if f then Some v else None) n"
  obtain d1 s1 q1 where r: "?r = (d1, s1, q1)" by (metis prod_cases3)
  from qr_step_lengths[OF assms r] r show ?thesis
    by (cases f) (auto simp: loop_body_def Let_def split: option.splits)
qed

lemma qr_iterate_lengths_aux:
  assumes run: "qr_iterate cb f n st = Some r"
  shows "keeps_cols cb \<longrightarrow>
     length (fst r) = length (fst st) \<and> length (snd (snd r)) = length (fst (snd (snd st)))"
proof (rule qr_iterate.raw_induct[where P = "\<lambda>cb f n st r. keeps_cols cb \<longrightarrow>
     length (fst r) = length (fst st) \<and> length (snd (snd r)) = length (fst (snd (snd st)))", OF _ run])
  fix qr_it cb f n st r
  assume IH: "\<And>cb f n st r. qr_it cb f n st = Some r \<Longrightarrow> keeps_cols cb \<longrightarrow>
     length (fst r) = length (fst st) \<and> length (snd (snd r)) = length (fst (snd (snd st)))"
    and step: "(case loop_body cb f n st of Inl r \<Rightarrow> Some r | Inr st1 \<Rightarrow> qr_it cb f n st1) = Some r"
  show "keeps_cols cb \<longrightarrow> length (fst r) = length (fst st) \<and> length (snd (snd r)) = length (fst (snd (snd st)))"
  proof
    assume cb: "keeps_cols cb"
    obtain d s v a b where st: "st = (d, s, v, a, b)" by (metis prod_cases5)
    note lb = loop_body_lengths[OF cb, where f=f and n=n and d=d and s=s and v=v and a=a and b=b]
    show "length (fst r) = length (fst st) \<and> length (snd (snd r)) = length (fst (snd (snd st)))"
    proof (cases "loop_body cb f n st")
      case (Inl r0)
      with step have "r0 = r" by simp
      with lb Inl st show ?thesis by (auto split: prod.splits)
    next
      case (Inr st1)
      with step have "qr_it cb f n st1 = Some r" by simp
      from IH[OF this] cb have "length (fst r) = length (fst st1) \<and> length (snd (snd r)) = length (fst (snd (snd st1)))"
        by simp
      with lb Inr st show ?thesis by (auto split: prod.splits)
    qed
  qed
qed

lemma qr_iterate_lengths:
  assumes cb: "keeps_cols cb" and run: "qr_iterate cb f n st = Some r"
  shows "length (fst r) = length (fst st) \<and> length (snd (snd r)) = length (fst (snd (snd st)))"
  using qr_iterate_lengths_aux[OF run] cb by simp


subsection \<open>A run of compute on a diagonal matrix\<close>

lemma qr_iterate_diag_3_1:
  "qr_iterate tridiagonal_collab f n ([3, 1], [0], v, 0, Suc 0) = Some ([3, 1], [0], v)"
proof -
  have u: "[0..<Suc 0] = [0]" by (simp add: upt_rec)
  have lb: "loop_body tridiagonal_collab f n ([3, 1], [0], v, 0, Suc 0) = Inl ([3, 1], [0], v)"
    by (simp add: loop_body_def deflate_def tridiagonal_collab_def u)
  show ?thesis by (subst qr_iterate.simps) (simp add: lb)
qed

lemma diagonalize_diag_3_1:
  "diagonalize tridiagonal_collab [[3, 0], [0, 1]] f
   = Some ([3, 1], [0], if f then [[1, 0], [0, 1]] else [[3, 0], [0, 1]])"
proof -
  have u: "[0..<Suc (Suc 0)] = [0, Suc 0]" "[0..<Suc 0] = [0]" by (simp_all add: upt_rec)
  have d: "decomposeInPlace tridiagonal_collab [[3, 0], [0, 1]] f
           = ((if f then [[1, 0], [0, 1]] else [[3, 0], [0, 1]]),
              (\<lambda>i. Re ([[3, 0], [0, 1]] ! i ! i)), (\<lambda>i. Re ([[3, 0], [0, 1]] ! i ! (i + 1))))"
    by (simp add: tridiagonal_collab_def u)
  show ?thesis
    by (simp add: diagonalize_def cols_def d u qr_iterate_diag_3_1)
qed

lemma sort_eigen_3_1:
  "sort_eigen (Suc (Suc 0)) ([3, 1], [a, b]) = ([1, 3], [b, a])"
proof -
  have u: "[0..<Suc 0] = [0]" by (simp add: upt_rec)
  show ?thesis by (simp add: sort_eigen_def sort_step_def swap_at_def u)
qed

lemma compute_diag_3_1:
  "compute tridiagonal_collab
     \<lparr>m_eivec = [], m_eivalues = [], m_subdiag = [], m_eigenvectorsOk = False\<rparr>
     [[3, 0], [0, 1]] f
   = Some (Inr \<lparr>m_eivec = (if f then [[0, 1], [1, 0]] else [[0, 1], [3, 0]]),
                m_eivalues = [1, 3], m_subdiag = [0], m_eigenvectorsOk = f\<rparr>)"
  by (simp add: compute_def is_square_def cols_def diagonalize_diag_3_1 sort_eigen_3_1)

subsection \<open>The claims about the eigen solver\<close>

text \<open>
  C1. When \<open>compute\<close> returns on a square matrix of size \<open>n \<ge> 1\<close>, the eigenvalues are
  sorted in ascending order, and the sorting pass keeps every eigenvalue with its
  column: the result is the selection sort of the diagonalised state, which swaps a
  column whenever it swaps an eigenvalue, so the pairs (eigenvalue \<open>i\<close>, column \<open>i\<close>) after
  the sort are the pairs before it.
\<close>

theorem compute_sorted_paired:
  assumes "keeps_cols cb" and "1 \<le> cols matrix"
    and "compute cb slv matrix computeEigenvectors = Some (Inr r)"
  shows "sorted (eigenvalues r) \<and> length (eigenvalues r) = cols matrix \<and>
         (1 < cols matrix \<longrightarrow>
            (\<exists>diag subdiag eivec.
               diagonalize cb matrix computeEigenvectors = Some (diag, subdiag, eivec) \<and>
               (eigenvalues r, m_eivec r) = sort_eigen (cols matrix) (diag, eivec) \<and>
               mset (zip (eigenvalues r) (m_eivec r)) = mset (zip diag eivec)))"
proof (cases "cols matrix = 1")
  case True
  with assms(3) show ?thesis
    by (auto simp: compute_def eigenvalues_def split: if_splits)
next
  case False
  with assms obtain d s v where dg: "diagonalize cb matrix computeEigenvectors = Some (d, s, v)"
    and r: "(m_eivalues r, m_eivec r) = sort_eigen (cols matrix) (d, v)"
    by (auto simp: compute_def split: if_splits option.splits prod.splits)
  obtain v0 d0 s0 where dec: "decomposeInPlace cb matrix computeEigenvectors = (v0, d0, s0)"
    by (metis prod_cases3)
  with dg have run: "qr_iterate cb computeEigenvectors (cols matrix)
     (map d0 [0..<cols matrix], map s0 [0..<cols matrix - 1], v0, 0, cols matrix - 1) = Some (d, s, v)"
    by (simp add: diagonalize_def Let_def)
  from assms(1) dec have "length v0 = cols matrix"
    by (metis cols_def fst_conv keeps_cols_def)
  with qr_iterate_lengths[OF assms(1) run] have len: "length d = cols matrix" "length v = cols matrix"
    by simp_all
  from sort_eigen_sorted[OF len] r dg show ?thesis
    by (simp add: eigenvalues_def) (metis fst_conv snd_conv)
qed

theorem compute_sorted_paired_witness:
  "keeps_cols tridiagonal_collab \<and> 1 \<le> cols [[3, 0], [0, 1]] \<and>
   compute tridiagonal_collab
     \<lparr>m_eivec = [], m_eivalues = [], m_subdiag = [], m_eigenvectorsOk = False\<rparr>
     [[3, 0], [0, 1]] True
   = Some (Inr \<lparr>m_eivec = [[0, 1], [1, 0]], m_eivalues = [1, 3], m_subdiag = [0],
                m_eigenvectorsOk = True\<rparr>) \<and>
   sorted (eigenvalues \<lparr>m_eivec = [[0, 1], [1, 0]], m_eivalues = [1, 3], m_subdiag = [0],
                m_eigenvectorsOk = True\<rparr>) \<and>
   mset (zip [1, 3] [[0, 1], [1, 0]]) = mset (zip [3, 1] [[1, 0], [0, 1 :: complex]])"
proof -
  have h1: "keeps_cols tridiagonal_collab" by (rule keeps_cols_tridiagonal_collab)
  have h2: "1 \<le> cols [[3, 0], [0, 1]]" by (simp add: cols_def)
  have h3: "compute tridiagonal_collab
     \<lparr>m_eivec = [], m_eivalues = [], m_subdiag = [], m_eigenvectorsOk = False\<rparr>
     [[3, 0], [0, 1]] True
   = Some (Inr \<lparr>m_eivec = [[0, 1], [1, 0]], m_eivalues = [1, 3], m_subdiag = [0],
                m_eigenvectorsOk = True\<rparr>)"
    by (simp add: compute_diag_3_1)
  from compute_sorted_paired[OF h1 h2 h3] h1 h2 h3 show ?thesis
    by (simp add: eigenvalues_def cols_def diagonalize_diag_3_1)
qed

text \<open>
  C5. For a \<open>1 \<times> 1\<close> matrix, \<open>compute\<close> returns with the real part of the single entry as
  the sole eigenvalue and the scalar 1 as the matrix of eigenvectors, whatever the flag
  \<open>computeEigenvectors\<close> is.
\<close>

theorem compute_1x1:
  assumes "is_square matrix" and "cols matrix = 1"
  shows "\<exists>r. compute cb slv matrix computeEigenvectors = Some (Inr r) \<and>
             eigenvalues r = [Re (matrix ! 0 ! 0)] \<and> m_eivec r = [[1]]"
  using assms by (simp add: compute_def eigenvalues_def)

theorem compute_1x1_witness:
  "is_square [[Complex 7 2]] \<and> cols [[Complex 7 2]] = 1 \<and>
   (\<exists>r. compute tridiagonal_collab
           \<lparr>m_eivec = [], m_eivalues = [], m_subdiag = [], m_eigenvectorsOk = False\<rparr>
           [[Complex 7 2]] False = Some (Inr r) \<and>
        eigenvalues r = [7] \<and> m_eivec r = [[1]])"
proof -
  have h1: "is_square [[Complex 7 2]]" by (simp add: is_square_def)
  have h2: "cols [[Complex 7 2]] = 1" by (simp add: cols_def)
  from compute_1x1[OF h1 h2, of tridiagonal_collab
      "\<lparr>m_eivec = [], m_eivalues = [], m_subdiag = [], m_eigenvectorsOk = False\<rparr>" False] h1 h2
  show ?thesis by simp
qed

text \<open>
  C10. \<open>ei_tridiagonal_qr_step\<close> leaves \<open>diag\<close> and \<open>subdiag\<close> in the same final state
  whether \<open>matrixQ\<close> is the null pointer or points to a matrix, for every \<open>diag\<close>,
  \<open>subdiag\<close>, \<open>start\<close>, \<open>end\<close> and \<open>n\<close>. Hence, when the tridiagonalisation yields the same
  diagonal and sub-diagonal for both values of the flag, \<open>compute\<close> behaves alike for
  both (it returns for both or for neither, and fails the same assertion) and the
  eigenvalues it produces are the same.
\<close>

theorem qr_step_ignores_matrixQ:
  "fst (ei_tridiagonal_qr_step cb diag subdiag start endi (Some q) n) =
   fst (ei_tridiagonal_qr_step cb diag subdiag start endi None n) \<and>
   fst (snd (ei_tridiagonal_qr_step cb diag subdiag start endi (Some q) n)) =
   fst (snd (ei_tridiagonal_qr_step cb diag subdiag start endi None n)) \<and>
   (snd (decomposeInPlace cb matrix True) = snd (decomposeInPlace cb matrix False) \<longrightarrow>
    map_option (map_sum id eigenvalues) (compute cb slv matrix True) =
    map_option (map_sum id eigenvalues) (compute cb slv matrix False))"
  using qr_step_indep[of cb diag subdiag start endi "Some q" n None]
    compute_flag_indep[of cb matrix slv]
  by blast

theorem qr_step_ignores_matrixQ_witness:
  "snd (decomposeInPlace tridiagonal_collab [[3, 0], [0, 1]] True) =
   snd (decomposeInPlace tridiagonal_collab [[3, 0], [0, 1]] False) \<and>
   map_option (map_sum id eigenvalues)
     (compute tridiagonal_collab
        \<lparr>m_eivec = [], m_eivalues = [], m_subdiag = [], m_eigenvectorsOk = False\<rparr>
        [[3, 0], [0, 1]] True) = Some (Inr [1, 3]) \<and>
   map_option (map_sum id eigenvalues)
     (compute tridiagonal_collab
        \<lparr>m_eivec = [], m_eivalues = [], m_subdiag = [], m_eigenvectorsOk = False\<rparr>
        [[3, 0], [0, 1]] False) = Some (Inr [1, 3]) \<and>
   fst (ei_tridiagonal_qr_step tridiagonal_collab [3, 1] [0] 0 1 (Some [[3, 0], [0, 1]]) 2) =
   fst (ei_tridiagonal_qr_step tridiagonal_collab [3, 1] [0] 0 1 None 2)"
proof -
  have h: "snd (decomposeInPlace tridiagonal_collab [[3, 0], [0, 1]] True) =
           snd (decomposeInPlace tridiagonal_collab [[3, 0], [0, 1]] False)"
    by (simp add: tridiagonal_collab_def)
  from qr_step_ignores_matrixQ[of tridiagonal_collab "[3, 1]" "[0]" 0 1 "[[3, 0], [0, 1]]" 2
      "[[3, 0], [0, 1]]" "\<lparr>m_eivec = [], m_eivalues = [], m_subdiag = [], m_eigenvectorsOk = False\<rparr>"] h
  show ?thesis by (simp add: compute_diag_3_1 eigenvalues_def)
qed

section \<open>Properties of the dogleg step\<close>

subsection \<open>The loop bodies, applied\<close>

lemma col_max_step_app:
  "col_max_step r n i (l, t) =
     (if l < length r then Inr (l + n - i, max t \<bar>r ! l\<bar>) else Inl AssertionFailed)"
  by (simp add: col_max_step_def rd_def)

subsection \<open>The divisor of the back-substitution\<close>

lemma col_max_scan:
  assumes "fold_err (col_max_step r n) idx (l, t) = Inr (l1, t1)"
  shows "t1 = t \<or> (\<exists>m < length r. t1 = \<bar>r ! m\<bar>)"
  using assms
proof (induction idx arbitrary: l t)
  case Nil
  then show ?case by simp
next
  case (Cons i idx)
  from Cons.prems have inb: "l < length r"
    by (auto simp: col_max_step_app split: if_splits)
  with Cons.prems have "fold_err (col_max_step r n) idx (l + n - i, max t \<bar>r ! l\<bar>) = Inr (l1, t1)"
    by (simp add: col_max_step_app)
  from Cons.IH[OF this] inb show ?case by (auto simp: max_def split: if_splits)
qed

text \<open>
  Two runs of the column scan. The stride \<open>l = l + n - i\<close> passes from \<open>R(0,j)\<close> at index
  \<open>j\<close> to index \<open>j + n\<close>, one past \<open>R(1,j)\<close> at \<open>j + n - 1\<close>: for \<open>n = 3\<close> and a zero \<open>R(1,1)\<close>
  the scan reads \<open>R(0,1)\<close> and \<open>R(1,2)\<close>, and for \<open>n = 2\<close> and a zero \<open>R(1,1)\<close> it reads past
  the end of the packed factor.
\<close>

lemma gn_divisor_scan_3: "gn_divisor (1 / 2 ^ 52) [1, 2, 0, 0, 7, 1] 3 1 3 = Inr (7 / 2 ^ 52)"
  by code_simp

lemma spec_column_3: "spec_column [1, 2, 0, 0, 7, 1] 3 1 = [2, 0]"
  by code_simp

lemma gn_divisor_scan_2: "gn_divisor (1 / 2 ^ 52) [1, 5, 0] 2 1 2 = Inl AssertionFailed"
  by code_simp

subsection \<open>The Gauss-Newton step of the identity\<close>

lemma gn_identity3:
  "gauss_newton epsmch [1, 0, 0, 1, 0, 1] [3, 4, 0] 3 [a, b, c] = Inr [3, 4, 0]"
  by code_simp

lemma gn_identity3_Suc:
  "gauss_newton epsmch [1, 0, 0, 1, 0, 1] [3, 4, 0] (Suc (Suc (Suc 0))) [a, b, c] = Inr [3, 4, 0]"
  using gn_identity3 by (simp add: eval_nat_numeral)

lemma norm_3_4_0: "stableNorm [3, 4, 0] = 5"
proof -
  have "stableNorm [3, 4, 0] = sqrt (5\<^sup>2)" by (simp add: stableNorm_def)
  then show ?thesis by simp
qed

lemma dogleg_identity3:
  "ei_dogleg epsmch [1, 0, 0, 1, 0, 1] [1, 1, 1] [3, 4, 0] 10 [a, b, c] = Inr [3, 4, 0]"
  by (simp add: ei_dogleg_def gn_identity3_Suc upt_rec norm_3_4_0 Let_def)

subsection \<open>The back-substitution solves the triangular system\<close>

lemma row_start_closed: "j \<le> n \<Longrightarrow> 2 * row_start n j + j * j = j * (2 * n + 1)"
  by (induction j) (auto simp: algebra_simps)

lemma row_start_n: "row_start n n = n * (n + 1) div 2"
proof -
  have "2 * row_start n n + n * n = n * (2 * n + 1)" by (rule row_start_closed) simp
  then have "2 * row_start n n = n * (n + 1)" by (simp add: algebra_simps)
  then show ?thesis by simp
qed

lemma row_start_mono: "i \<le> j \<Longrightarrow> row_start n i \<le> row_start n j"
  by (induction j) (auto simp: le_Suc_eq)

lemma row_start_Suc_le: "j < n \<Longrightarrow> row_start n j + (n - j) \<le> row_start n n"
  using row_start_mono[of "Suc j" n n] by simp

lemma gn_sum_step_app:
  "gn_sum_step r x i (l, sm) =
     (if l < length r then Inr (l + 1, sm + r ! l * x ! i) else Inl AssertionFailed)"
  by (simp add: gn_sum_step_def rd_def)

lemma fold_gn_sum:
  assumes "l + length idx \<le> length r"
  shows "fold_err (gn_sum_step r x) idx (l, sm) =
         Inr (l + length idx, sm + (\<Sum>k<length idx. r ! (l + k) * x ! (idx ! k)))"
  using assms
proof (induction idx arbitrary: l sm)
  case Nil
  then show ?case by simp
next
  case (Cons i idx)
  from Cons.prems have l: "l < length r" and rest: "(l + 1) + length idx \<le> length r" by simp_all
  have split: "(\<Sum>k<length (i # idx). r ! (l + k) * x ! ((i # idx) ! k)) =
      r ! l * x ! i + (\<Sum>k<length idx. r ! (l + 1 + k) * x ! (idx ! k))"
    by (simp add: sum.lessThan_Suc_shift del: sum.lessThan_Suc)
  show ?case
    using Cons.IH[OF rest, of "sm + r ! l * x ! i"] l
    unfolding split by (simp add: gn_sum_step_app)
qed

lemma fold_gn_sum_upt:
  assumes "l + (b - a) \<le> length r"
  shows "fold_err (gn_sum_step r x) [a..<b] (l, sm) =
         Inr (l + (b - a), sm + (\<Sum>k<b - a. r ! (l + k) * x ! (a + k)))"
  using fold_gn_sum[of l "[a..<b]" r x sm] assms by simp

lemma fold_err_append:
  "fold_err f (xs @ ys) s = (case fold_err f xs s of Inl e \<Rightarrow> Inl e | Inr s1 \<Rightarrow> fold_err f ys s1)"
  by (induction xs arbitrary: s) (auto split: sum.splits)

lemma packed_row_update:
  assumes "j < i" "length x = n"
  shows "packed_row r n i (x[j := a]) = packed_row r n i x"
  using assms by (simp add: packed_row_def)

lemma packed_row_split:
  assumes "j < n"
  shows "packed_row r n j x =
         r ! row_start n j * x ! j + (\<Sum>k<n - (j + 1). r ! (row_start n j + 1 + k) * x ! (j + 1 + k))"
proof -
  from assms have "n - j = Suc (n - (j + 1))" by simp
  then show ?thesis
    by (simp add: packed_row_def sum.lessThan_Suc_shift del: sum.lessThan_Suc)
qed

lemma gn_step_row:
  assumes ns: "nonsingular r n" and k: "k < n" and inv: "gn_solved r qtb n (n - k) x"
  shows "\<exists>x1. gn_step epsmch r qtb n k (row_start n (n - k), x) = Inr (row_start n (n - k - 1), x1)
             \<and> gn_solved r qtb n (n - k - 1) x1"
proof -
  define j where "j = n - k - 1"
  from k have j: "j < n" "n - k = j + 1" "n - j = k + 1" by (simp_all add: j_def)
  from inv have len: "length x = n" by (simp add: gn_solved_def)
  have rs: "row_start n (j + 1) = row_start n j + (k + 1)" using j by simp
  from ns row_start_Suc_le[OF j(1)] have bound: "row_start n j + (n - j) \<le> length r"
    by (simp add: nonsingular_def)
  from ns j have piv: "r ! row_start n j \<noteq> 0" by (simp add: nonsingular_def)
  define S where "S = (\<Sum>k'<n - (j + 1). r ! (row_start n j + 1 + k') * x ! (j + 1 + k'))"
  have sum: "fold_err (gn_sum_step r x) [j + 1..<n] (row_start n j + 1, 0) = Inr (row_start n j + 1 + (n - (j + 1)), S)"
    using fold_gn_sum_upt[of "row_start n j + 1" n "j + 1" r x 0] bound j by (simp add: S_def)
  have dv: "gn_divisor epsmch r n j (row_start n j) = Inr (r ! row_start n j)"
    using piv bound j by (simp add: gn_divisor_def rd_def)
  define x1 where "x1 = x[j := (qtb ! j - S) / r ! row_start n j]"
  have step: "gn_step epsmch r qtb n k (row_start n (n - k), x) = Inr (row_start n j, x1)"
    using sum dv by (simp add: gn_step_def Let_def j rs x1_def j_def[symmetric])
  have "packed_row r n i x1 = qtb ! i" if i: "j \<le> i" "i < n" for i
  proof (cases "i = j")
    case True
    have "(\<Sum>k'<n - (j + 1). r ! (row_start n j + 1 + k') * x1 ! (j + 1 + k')) = S"
      by (simp add: S_def x1_def)
    moreover have "x1 ! j = (qtb ! j - S) / r ! row_start n j" using len j by (simp add: x1_def)
    ultimately show ?thesis using piv True j(1) by (simp add: packed_row_split)
  next
    case False
    with i have ji: "j < i" by simp
    with inv i j have "packed_row r n i x = qtb ! i" by (simp add: gn_solved_def)
    with packed_row_update[OF ji len] show ?thesis by (simp add: x1_def)
  qed
  moreover have "length x1 = n" using len by (simp add: x1_def)
  ultimately have "gn_solved r qtb n j x1" by (simp add: gn_solved_def)
  with step show ?thesis by (auto simp: j_def)
qed

lemma gn_fold:
  assumes ns: "nonsingular r n" and len: "length x = n" and m: "m \<le> n"
  shows "\<exists>x1. fold_err (gn_step epsmch r qtb n) [0..<m] (row_start n n, x) = Inr (row_start n (n - m), x1)
             \<and> gn_solved r qtb n (n - m) x1"
  using m
proof (induction m)
  case 0
  then show ?case using len by (simp add: gn_solved_def)
next
  case (Suc m)
  then obtain x1 where a: "fold_err (gn_step epsmch r qtb n) [0..<m] (row_start n n, x) = Inr (row_start n (n - m), x1)"
    and inv: "gn_solved r qtb n (n - m) x1" by auto
  from Suc.prems have "m < n" by simp
  from gn_step_row[OF ns this inv, of epsmch] obtain x2 where
    b: "gn_step epsmch r qtb n m (row_start n (n - m), x1) = Inr (row_start n (n - m - 1), x2)"
    and inv2: "gn_solved r qtb n (n - m - 1) x2" by blast
  from a b inv2 show ?case by (simp add: fold_err_append)
qed

lemma gauss_newton_solves:
  assumes "nonsingular r n" "length x = n"
  shows "\<exists>x1. gauss_newton epsmch r qtb n x = Inr x1 \<and> gn_solved r qtb n 0 x1"
  using gn_fold[OF assms, of n epsmch qtb]
  by (auto simp: gauss_newton_def row_start_n)

lemma grad_inner_step_app:
  "grad_inner_step r t i (l, w) =
     (if l < length r then Inr (l + 1, w[i := w ! i + r ! l * t]) else Inl AssertionFailed)"
  by (simp add: grad_inner_step_def rd_def)

lemma grad_inner:
  assumes "l + (b - a) \<le> length r" "b \<le> length w"
  shows "\<exists>w1. fold_err (grad_inner_step r t) [a..<b] (l, w) = Inr (l + (b - a), w1) \<and>
              length w1 = length w \<and>
              (\<forall>i<length w. w1 ! i = (if a \<le> i \<and> i < b then w ! i + r ! (l + (i - a)) * t else w ! i))"
  using assms
proof (induction "b - a" arbitrary: a l w)
  case 0
  then show ?case by simp
next
  case (Suc d)
  then have ab: "a < b" and d: "d = b - Suc a" by simp_all
  from Suc.prems ab have l: "l < length r" and rest: "(l + 1) + (b - Suc a) \<le> length r" by simp_all
  define w0 where "w0 = w[a := w ! a + r ! l * t]"
  have len0: "b \<le> length w0" using Suc.prems by (simp add: w0_def)
  from Suc.hyps(1)[OF d rest len0] obtain w1 where
    f: "fold_err (grad_inner_step r t) [Suc a..<b] (l + 1, w0) = Inr (l + 1 + (b - Suc a), w1)"
    and len1: "length w1 = length w0"
    and val: "\<forall>i<length w0. w1 ! i = (if Suc a \<le> i \<and> i < b then w0 ! i + r ! (l + 1 + (i - Suc a)) * t else w0 ! i)"
    by blast
  have "fold_err (grad_inner_step r t) [a..<b] (l, w) = Inr (l + (b - a), w1)"
    using f l ab by (simp add: upt_rec[of a b] grad_inner_step_app w0_def)
  moreover have "length w1 = length w" using len1 by (simp add: w0_def)
  moreover have "w1 ! i = (if a \<le> i \<and> i < b then w ! i + r ! (l + (i - a)) * t else w ! i)"
    if "i < length w" for i
  proof -
    from that val have v: "w1 ! i = (if Suc a \<le> i \<and> i < b then w0 ! i + r ! (l + 1 + (i - Suc a)) * t else w0 ! i)"
      by (simp add: w0_def)
    show ?thesis
    proof (cases "i = a")
      case True
      with v that ab show ?thesis by (simp add: w0_def)
    next
      case False
      then have "w0 ! i = w ! i" by (simp add: w0_def)
      moreover have "l + 1 + (i - Suc a) = l + (i - a)" if "Suc a \<le> i" using that by simp
      ultimately show ?thesis using v False by auto
    qed
  qed
  ultimately show ?case by blast
qed

lemma grad_step_row:
  assumes bound: "row_start n n \<le> length r" and j: "j < n" and inv: "grad_state r diag qtb n j w"
  shows "\<exists>w1. grad_step r diag qtb n j (row_start n j, w) = Inr (row_start n (Suc j), w1)
             \<and> grad_state r diag qtb n (Suc j) w1"
proof -
  from inv have len: "length w = n" by (simp add: grad_state_def)
  from bound row_start_Suc_le[OF j] have b: "row_start n j + (n - j) \<le> length r" by simp
  from grad_inner[OF b, of w "qtb ! j"] len obtain w1 where
    f: "fold_err (grad_inner_step r (qtb ! j)) [j..<n] (row_start n j, w) = Inr (row_start n j + (n - j), w1)"
    and len1: "length w1 = n"
    and val: "\<forall>i<n. w1 ! i = (if j \<le> i \<and> i < n then w ! i + r ! (row_start n j + (i - j)) * qtb ! j else w ! i)"
    by auto
  define w2 where "w2 = w1[j := w1 ! j / diag ! j]"
  have step: "grad_step r diag qtb n j (row_start n j, w) = Inr (row_start n (Suc j), w2)"
    using f by (simp add: grad_step_def w2_def)
  have "w2 ! i = (if i < Suc j then col_partial r qtb n (Suc i) i / diag ! i
                  else col_partial r qtb n (Suc j) i)" if i: "i < n" for i
  proof -
    from inv i have wi: "w ! i = (if i < j then col_partial r qtb n (Suc i) i / diag ! i
                       else col_partial r qtb n j i)" by (simp add: grad_state_def)
    from val i have w1i: "w1 ! i = (if j \<le> i then w ! i + r ! (row_start n j + (i - j)) * qtb ! j else w ! i)"
      by simp
    have cp: "col_partial r qtb n (Suc j) i = col_partial r qtb n j i + r ! (row_start n j + (i - j)) * qtb ! j"
      by (simp add: col_partial_def)
    show ?thesis
    proof (cases "i = j")
      case True
      with w1i wi cp i len1 show ?thesis by (simp add: w2_def)
    next
      case False
      then have "w2 ! i = w1 ! i" by (simp add: w2_def)
      with w1i wi cp False show ?thesis by auto
    qed
  qed
  moreover have "length w2 = n" using len1 by (simp add: w2_def)
  ultimately have "grad_state r diag qtb n (Suc j) w2" by (simp add: grad_state_def)
  with step show ?thesis by blast
qed

lemma grad_fold:
  assumes bound: "row_start n n \<le> length r" and m: "m \<le> n"
  shows "\<exists>w1. fold_err (grad_step r diag qtb n) [0..<m] (0, replicate n 0) = Inr (row_start n m, w1)
             \<and> grad_state r diag qtb n m w1"
  using m
proof (induction m)
  case 0
  then show ?case by (simp add: grad_state_def col_partial_def)
next
  case (Suc m)
  then obtain w1 where a: "fold_err (grad_step r diag qtb n) [0..<m] (0, replicate n 0) = Inr (row_start n m, w1)"
    and inv: "grad_state r diag qtb n m w1" by auto
  from Suc.prems have "m < n" by simp
  from grad_step_row[OF bound this inv] obtain w2 where
    "grad_step r diag qtb n m (row_start n m, w1) = Inr (row_start n (Suc m), w2)"
    "grad_state r diag qtb n (Suc m) w2" by blast
  with a show ?case by (simp add: fold_err_append)
qed

lemma scaled_gradient_value:
  assumes "row_start n n \<le> length r"
  shows "\<exists>w. scaled_gradient r diag qtb n = Inr w \<and> length w = n \<and>
             (\<forall>i<n. w ! i = col_partial r qtb n (Suc i) i / diag ! i)"
  using grad_fold[OF assms, of n diag qtb]
  by (auto simp: scaled_gradient_def grad_state_def)

lemma rmul_step_row:
  assumes bound: "row_start n n \<le> length r" and j: "j < n" and len: "length w = n"
    and inv: "\<forall>i<j. w ! i = packed_row r n i v"
  shows "\<exists>w1. rmul_step r v n j (row_start n j, w) = Inr (row_start n (Suc j), w1) \<and>
              length w1 = n \<and> (\<forall>i<Suc j. w1 ! i = packed_row r n i v)"
proof -
  from bound row_start_Suc_le[OF j] have b: "row_start n j + (n - j) \<le> length r" by simp
  have "rmul_step r v n j (row_start n j, w) = Inr (row_start n (Suc j), w[j := packed_row r n j v])"
    using fold_gn_sum_upt[OF b, of v 0] by (simp add: rmul_step_def packed_row_def)
  moreover have "\<forall>i<Suc j. (w[j := packed_row r n j v]) ! i = packed_row r n i v"
    using inv len j by (auto simp: nth_list_update less_Suc_eq)
  ultimately show ?thesis using len by auto
qed

lemma rmul_fold:
  assumes bound: "row_start n n \<le> length r" and len: "length w = n" and m: "m \<le> n"
  shows "\<exists>w1. fold_err (rmul_step r v n) [0..<m] (0, w) = Inr (row_start n m, w1) \<and>
              length w1 = n \<and> (\<forall>i<m. w1 ! i = packed_row r n i v)"
  using m
proof (induction m)
  case 0
  then show ?case using len by simp
next
  case (Suc m)
  then obtain w1 where a: "fold_err (rmul_step r v n) [0..<m] (0, w) = Inr (row_start n m, w1)"
    and l1: "length w1 = n" and inv: "\<forall>i<m. w1 ! i = packed_row r n i v" by auto
  from Suc.prems have "m < n" by simp
  from rmul_step_row[OF bound this l1 inv] obtain w2 where
    "rmul_step r v n m (row_start n m, w1) = Inr (row_start n (Suc m), w2)"
    "length w2 = n" "\<forall>i<Suc m. w2 ! i = packed_row r n i v" by blast
  with a show ?case by (simp add: fold_err_append)
qed

lemma r_times_value:
  assumes "row_start n n \<le> length r" "length w = n"
  shows "\<exists>w1. r_times r v w n = Inr w1 \<and> length w1 = n \<and> (\<forall>i<n. w1 ! i = packed_row r n i v)"
  using rmul_fold[OF assms, of n v] by (auto simp: r_times_def)

subsection \<open>The quadratic that fixes alpha\<close>

lemma blend_core:
  fixes a b t S A Wn E \<beta> :: real
  assumes E: "E = 1 - b\<^sup>2" and S: "S\<^sup>2 = A\<^sup>2 + Wn * E" and nz: "A + S \<noteq> 0"
    and A: "A = t - a * b\<^sup>2" and Wn: "Wn = a\<^sup>2 * b\<^sup>2 - 2 * a * t + 1"
    and \<beta>: "\<beta> = E / (A + S)"
  shows "(1 - a * \<beta>)\<^sup>2 * b\<^sup>2 + 2 * (1 - a * \<beta>) * \<beta> * t + \<beta>\<^sup>2 = 1"
proof -
  from \<beta> nz have bE: "\<beta> * (A + S) = E" by simp
  have "(\<beta>\<^sup>2 * Wn + 2 * \<beta> * A - E) * (A + S)\<^sup>2
        = (\<beta> * (A + S))\<^sup>2 * Wn + 2 * (\<beta> * (A + S)) * A * (A + S) - E * (A + S)\<^sup>2"
    by (simp add: power2_eq_square algebra_simps)
  also have "\<dots> = E\<^sup>2 * Wn + 2 * E * A * (A + S) - E * (A + S)\<^sup>2"
    by (simp add: bE)
  also have "\<dots> = E * (E * Wn + A\<^sup>2 - S\<^sup>2)"
    by (simp add: power2_eq_square algebra_simps)
  also have "\<dots> = 0" by (simp add: S)
  finally have "\<beta>\<^sup>2 * Wn + 2 * \<beta> * A - E = 0" using nz by simp
  moreover have "(1 - a * \<beta>)\<^sup>2 * b\<^sup>2 + 2 * (1 - a * \<beta>) * \<beta> * t + \<beta>\<^sup>2 - 1
                 = \<beta>\<^sup>2 * Wn + 2 * \<beta> * A - E"
    unfolding E A Wn by (simp add: power2_eq_square algebra_simps)
  ultimately show ?thesis by simp
qed

lemma blend_alpha:
  fixes Q \<delta> u c B G :: real
  assumes u0: "0 \<le> u" and ud: "u < \<delta>" and dQ: "\<delta> < Q"
    and W: "0 < Q\<^sup>2 - 2 * c * u + u\<^sup>2" and G: "G \<noteq> 0" and c: "c = B * B / G"
    and t1: "temp1 = B / G * (B / Q) * (u / \<delta>)"
    and t2: "temp2 = temp1 - \<delta> / Q * (u / \<delta>)\<^sup>2
                   + sqrt ((temp1 - \<delta> / Q)\<^sup>2 + (1 - (\<delta> / Q)\<^sup>2) * (1 - (u / \<delta>)\<^sup>2))"
    and al: "\<alpha> = \<delta> / Q * (1 - (u / \<delta>)\<^sup>2) / temp2"
  shows "((1 - \<alpha>) * u)\<^sup>2 + 2 * ((1 - \<alpha>) * u) * \<alpha> * c + \<alpha>\<^sup>2 * Q\<^sup>2 = \<delta>\<^sup>2"
proof -
  from u0 ud dQ have d0: "0 < \<delta>" and Q0: "0 < Q" by simp_all
  define a where "a = \<delta> / Q"
  define b where "b = u / \<delta>"
  define E where "E = 1 - b\<^sup>2"
  define A where "A = temp1 - a * b\<^sup>2"
  define Wn where "Wn = a\<^sup>2 * b\<^sup>2 - 2 * a * temp1 + 1"
  define S where "S = sqrt ((temp1 - a)\<^sup>2 + (1 - a\<^sup>2) * E)"
  have a: "0 < a" "a < 1" using d0 Q0 dQ by (simp_all add: a_def)
  have b: "0 \<le> b" "b < 1" using d0 u0 ud by (simp_all add: b_def)
  have E0: "0 < E" using b by (simp add: E_def power2_eq_square) (metis abs_of_nonneg abs_square_less_1 power2_eq_square)
  have t: "temp1 = c * u / (Q * \<delta>)" using G by (simp add: t1 c)
  have Wn_eq: "Wn = (Q\<^sup>2 - 2 * c * u + u\<^sup>2) / Q\<^sup>2"
    using d0 Q0 by (simp add: Wn_def a_def b_def t power2_eq_square field_simps)
  have Wn0: "0 < Wn" using W Q0 by (simp add: Wn_eq)
  have D: "(temp1 - a)\<^sup>2 + (1 - a\<^sup>2) * E = A\<^sup>2 + Wn * E"
    by (simp add: A_def Wn_def E_def power2_eq_square algebra_simps)
  have S2: "S\<^sup>2 = A\<^sup>2 + Wn * E"
  proof -
    have "0 \<le> A\<^sup>2 + Wn * E" using Wn0 E0 by (simp add: less_imp_le)
    then show ?thesis by (simp add: S_def D)
  qed
  have Sgt: "\<bar>A\<bar> < S"
  proof -
    have "A\<^sup>2 < A\<^sup>2 + Wn * E" using Wn0 E0 by simp
    then have "sqrt (A\<^sup>2) < sqrt (A\<^sup>2 + Wn * E)" by (simp only: real_sqrt_less_iff)
    then show ?thesis by (simp add: S_def D)
  qed
  then have nz: "A + S \<noteq> 0" by linarith
  have temp2: "temp2 = A + S" by (simp add: t2 A_def S_def a_def b_def E_def)
  define \<beta> where "\<beta> = E / (A + S)"
  have al': "\<alpha> = a * \<beta>" by (simp add: al temp2 \<beta>_def a_def b_def E_def)
  from blend_core[OF E_def S2 nz A_def Wn_def \<beta>_def]
  have core: "(1 - a * \<beta>)\<^sup>2 * b\<^sup>2 + 2 * (1 - a * \<beta>) * \<beta> * temp1 + \<beta>\<^sup>2 = 1" .
  have "((1 - \<alpha>) * u)\<^sup>2 + 2 * ((1 - \<alpha>) * u) * \<alpha> * c + \<alpha>\<^sup>2 * Q\<^sup>2
        = \<delta>\<^sup>2 * ((1 - a * \<beta>)\<^sup>2 * b\<^sup>2 + 2 * (1 - a * \<beta>) * \<beta> * temp1 + \<beta>\<^sup>2)"
    using d0 Q0 by (simp add: al' a_def b_def t power2_eq_square field_simps)
  with core show ?thesis by simp
qed

subsection \<open>Norms of the blended step\<close>

lemma stableNorm_map_upt: "stableNorm (map f [0..<n]) = sqrt (\<Sum>j<n. (f j)\<^sup>2)"
  by (simp add: stableNorm_def comp_def interv_sum_list_conv_sum_set_nat atLeast0LessThan)

lemma stableNorm_nth:
  assumes "length w = n"
  shows "stableNorm w = sqrt (\<Sum>j<n. (w ! j)\<^sup>2)"
proof -
  from assms have "map ((!) w) [0..<n] = w" by (auto simp: map_nth)
  with stableNorm_map_upt[of "(!) w" n] show ?thesis by simp
qed

lemma sum_sq_lin:
  fixes f g :: "nat \<Rightarrow> real"
  shows "(\<Sum>j<n. (s * f j + a * g j)\<^sup>2) =
         s\<^sup>2 * (\<Sum>j<n. (f j)\<^sup>2) + 2 * s * a * (\<Sum>j<n. f j * g j) + a\<^sup>2 * (\<Sum>j<n. (g j)\<^sup>2)"
  by (simp add: power2_eq_square algebra_simps sum.distrib sum_distrib_left)

lemma triangle_exchange:
  fixes a :: "nat \<Rightarrow> nat \<Rightarrow> real"
  shows "(\<Sum>i<n. \<Sum>m<Suc i. a m i) = (\<Sum>m<n. \<Sum>k<n - m. a m (m + k))"
proof -
  have "(\<Sum>i<n. \<Sum>m<Suc i. a m i) = (\<Sum>i<n. \<Sum>m<n. if m \<le> i then a m i else 0)"
  proof (rule sum.cong[OF refl])
    fix i assume "i \<in> {..<n}"
    then have "{..<n} \<inter> {m. m \<le> i} = {..<Suc i}" by auto
    then show "(\<Sum>m<Suc i. a m i) = (\<Sum>m<n. if m \<le> i then a m i else 0)"
      using sum.inter_restrict[of "{..<n}" "\<lambda>m. a m i" "{m. m \<le> i}"] by simp
  qed
  also have "\<dots> = (\<Sum>m<n. \<Sum>i<n. if m \<le> i then a m i else 0)" by (rule sum.swap)
  also have "\<dots> = (\<Sum>m<n. \<Sum>k<n - m. a m (m + k))"
  proof (rule sum.cong[OF refl])
    fix m assume "m \<in> {..<n}"
    have "{..<n} \<inter> {i. m \<le> i} = {m..<n}" by auto
    then have "(\<Sum>i<n. if m \<le> i then a m i else 0) = (\<Sum>i = m..<n. a m i)"
      using sum.inter_restrict[of "{..<n}" "\<lambda>i. a m i" "{i. m \<le> i}"] by simp
    also have "\<dots> = (\<Sum>k<n - m. a m (m + k))"
      by (simp add: sum.atLeastLessThan_shift_0[of _ m n] comp_def atLeast0LessThan)
    finally show "(\<Sum>i<n. if m \<le> i then a m i else 0) = (\<Sum>k<n - m. a m (m + k))" .
  qed
  finally show ?thesis .
qed

lemma gradient_dot:
  assumes "gn_solved r qtb n 0 x"
  shows "(\<Sum>i<n. col_partial r qtb n (Suc i) i * x ! i) = (\<Sum>m<n. (qtb ! m)\<^sup>2)"
proof -
  have "(\<Sum>i<n. col_partial r qtb n (Suc i) i * x ! i)
        = (\<Sum>i<n. \<Sum>m<Suc i. r ! (row_start n m + (i - m)) * qtb ! m * x ! i)"
    unfolding col_partial_def by (simp add: sum_distrib_right del: sum.lessThan_Suc)
  also have "\<dots> = (\<Sum>m<n. \<Sum>k<n - m. r ! (row_start n m + (m + k - m)) * qtb ! m * x ! (m + k))"
    by (rule triangle_exchange)
  also have "\<dots> = (\<Sum>m<n. qtb ! m * packed_row r n m x)"
    by (simp add: packed_row_def sum_distrib_left algebra_simps)
  also have "\<dots> = (\<Sum>m<n. (qtb ! m)\<^sup>2)"
    using assms by (simp add: gn_solved_def power2_eq_square)
  finally show ?thesis .
qed


lemma combine_scaled_norm:
  "stableNorm (map (\<lambda>j. diag ! j * combine sgnorm alpha delta n wa x ! j) [0..<n]) =
   sqrt (\<Sum>j<n. ((1 - alpha) * min sgnorm delta * (diag ! j * wa ! j) + alpha * (diag ! j * x ! j))\<^sup>2)"
proof -
  have "map (\<lambda>j. diag ! j * combine sgnorm alpha delta n wa x ! j) [0..<n] =
        map (\<lambda>j. (1 - alpha) * min sgnorm delta * (diag ! j * wa ! j) + alpha * (diag ! j * x ! j)) [0..<n]"
    by (rule map_cong) (auto simp: combine_def Let_def algebra_simps)
  then show ?thesis by (simp add: stableNorm_map_upt)
qed

lemma sum_sq_zero_eq:
  fixes f g :: "nat \<Rightarrow> real"
  assumes "(\<Sum>j<n. (f j - u * g j)\<^sup>2) = 0"
  shows "(\<Sum>j<n. (f j)\<^sup>2) = u\<^sup>2 * (\<Sum>j<n. (g j)\<^sup>2)"
proof -
  have "\<forall>j\<in>{..<n}. (f j - u * g j)\<^sup>2 = 0"
    using assms by (subst (asm) sum_nonneg_eq_0_iff) auto
  then have "\<And>j. j < n \<Longrightarrow> f j = u * g j" by simp
  then have "(\<Sum>j<n. (f j)\<^sup>2) = (\<Sum>j<n. u\<^sup>2 * (g j)\<^sup>2)"
    by (intro sum.cong) (auto simp: power_mult_distrib)
  then show ?thesis by (simp add: sum_distrib_left)
qed


subsection \<open>A run on a singular factor\<close>

lemma gn_sing: "gauss_newton (1 / 2 ^ 52) [0, 4, 3] [3, 4] 2 [0, 0] = Inr [- (7 * 2 ^ 52 / 3), 4 / 3]"
  by code_simp

lemma sg_sing: "scaled_gradient [0, 4, 3] [3 / (7 * 2 ^ 52), 1] [3, 4] 2 = Inr [0, 24]"
  by code_simp

lemma rt_sing: "r_times [0, 4, 3] [0, 1] [- 1, 4 / 3] 2 = Inr [4, 3]"
  by code_simp

lemma sqrt_rat: "0 \<le> b \<Longrightarrow> a = b * b \<Longrightarrow> sqrt a = b"
  by (simp add: real_sqrt_mult)

lemma norm_m1_43: "stableNorm [- 1, 4 / 3] = 5 / 3"
  unfolding stableNorm_def by (rule sqrt_rat) (simp_all add: power2_eq_square)
lemma norm_0_24: "stableNorm [0, 24] = 24"
  unfolding stableNorm_def by (rule sqrt_rat) (simp_all add: power2_eq_square)
lemma norm_4_3: "stableNorm [4, 3] = 5"
  unfolding stableNorm_def by (rule sqrt_rat) (simp_all add: power2_eq_square)
lemma norm_3_4: "stableNorm [3, 4] = 5"
  unfolding stableNorm_def by (rule sqrt_rat) (simp_all add: power2_eq_square)

lemma upt_0_2: "[0..<2] = [0, 1]" by (simp add: upt_rec)

lemma wa2_sing: "map (\<lambda>j. [3 / (7 * 2 ^ 52), 1] ! j * [- (7 * 2 ^ 52 / 3), 4 / 3] ! j) [0..<2] = [- 1, 4 / 3 :: real]"
  by (simp add: upt_0_2)

lemma wa11_sing: "map (\<lambda>j. [0, 24] ! j / 24 / [3 / (7 * 2 ^ 52), 1] ! j) [0..<2] = [0, 1 :: real]"
  by (simp add: upt_0_2)

lemma sqrt_discriminant: "sqrt ((5 / 24 * (5 / (5 / 3)) * (24 / 5 / 5 / 1) - 1 / (5 / 3))\<^sup>2 + (1 - (1 / (5 / 3))\<^sup>2) * (1 - (24 / 5 / 5 / 1)\<^sup>2)) = (28 / 125 :: real)"
  by (rule sqrt_rat) (simp_all add: power2_eq_square)

lemma dogleg_sing:
  "ei_dogleg (1 / 2 ^ 52) [0, 4, 3] [3 / (7 * 2 ^ 52), 1] [3, 4] 1 [0, 0]
   = Inr [- (49 * 2 ^ 52 / 121), 124 / 121]"
proof -
  have len: "length [3 / (7 * 2 ^ 52), 1 :: real] = 2" by simp
  have "ei_dogleg (1 / 2 ^ 52) [0, 4, 3] [3 / (7 * 2 ^ 52), 1] [3, 4] 1 [0, 0]
     = Inr (combine (24 / 5 / 5) (1 / (5 / 3) * (1 - (24 / 5 / 5 / 1)\<^sup>2) /
          (5 / 24 * (5 / (5 / 3)) * (24 / 5 / 5 / 1) - 1 / (5 / 3) * (24 / 5 / 5 / 1)\<^sup>2 + 28 / 125)) 1 2 [0, 1]
          [- (7 * 2 ^ 52 / 3), 4 / 3])"
    unfolding ei_dogleg_def Let_def len
    by (simp only: gn_sing sg_sing wa2_sing wa11_sing rt_sing norm_m1_43 norm_0_24 norm_4_3 norm_3_4 sqrt_discriminant sum.case) simp
  also have "\<dots> = Inr [- (49 * 2 ^ 52 / 121), 124 / 121]"
    by (simp add: combine_def upt_0_2 power2_eq_square)
  finally show ?thesis .
qed

lemma norm_sing: "\<not> stableNorm [3 / (7 * 2 ^ 52) * - (49 * 2 ^ 52 / 121), 1 * (124 / 121)] \<le> 1"
proof -
  have "(1::real) < (\<Sum>a\<leftarrow>[3 / (7 * 2 ^ 52) * - (49 * 2 ^ 52 / 121), 1 * (124 / 121)]. a\<^sup>2)"
    by (simp add: power2_eq_square)
  then have "sqrt 1 < stableNorm [3 / (7 * 2 ^ 52) * - (49 * 2 ^ 52 / 121), 1 * (124 / 121)]"
    unfolding stableNorm_def by (simp only: real_sqrt_less_iff)
  then show ?thesis by simp
qed

subsection \<open>The claims about the Gauss-Newton step\<close>

text \<open>
  C4. If the scaled Gauss-Newton step satisfies the trust-region constraint,
  \<open>qnorm = \<parallel>diag \<cdot> x_gn\<parallel> \<le> delta\<close>, then \<open>ei_dogleg\<close> returns at once with \<open>x\<close> equal to the
  Gauss-Newton step. In particular, for \<open>R\<close> the \<open>3 \<times> 3\<close> identity, \<open>diag = [1,1,1]\<close>,
  \<open>qtb = [3,4,0]\<close> and \<open>delta = 10\<close> the returned \<open>x\<close> is \<open>qtb\<close>.
\<close>

theorem dogleg_returns_gauss_newton:
  "(length qtb = length diag \<and> length x = length diag \<and>
    gauss_newton epsmch r qtb (length diag) x = Inr x_gn \<and>
    stableNorm (map (\<lambda>j. diag ! j * x_gn ! j) [0..<length diag]) \<le> delta
    \<longrightarrow> ei_dogleg epsmch r diag qtb delta x = Inr x_gn) \<and>
   ei_dogleg epsmch [1, 0, 0, 1, 0, 1] [1, 1, 1] [3, 4, 0] 10 [a, b, c] = Inr [3, 4, 0]"
  by (simp add: dogleg_identity3) (simp add: ei_dogleg_def Let_def)

theorem dogleg_returns_gauss_newton_witness:
  "length [3, 4, 0 :: real] = length [1, 1, 1 :: real] \<and>
   length [0, 0, 0 :: real] = length [1, 1, 1 :: real] \<and>
   gauss_newton (1 / 2 ^ 52) [1, 0, 0, 1, 0, 1] [3, 4, 0] (length [1, 1, 1 :: real]) [0, 0, 0]
     = Inr [3, 4, 0] \<and>
   stableNorm (map (\<lambda>j. [1, 1, 1] ! j * [3, 4, 0] ! j) [0..<length [1, 1, 1 :: real]]) \<le> 10 \<and>
   ei_dogleg (1 / 2 ^ 52) [1, 0, 0, 1, 0, 1] [1, 1, 1] [3, 4, 0] 10 [0, 0, 0] = Inr [3, 4, 0]"
proof -
  have g: "gauss_newton (1 / 2 ^ 52) [1, 0, 0, 1, 0, 1] [3, 4, 0] (length [1, 1, 1 :: real]) [0, 0, 0]
           = Inr [3, 4, 0]"
    by (simp add: gn_identity3_Suc)
  have n: "stableNorm (map (\<lambda>j. [1, 1, 1] ! j * [3, 4, 0] ! j) [0..<length [1, 1, 1 :: real]]) \<le> 10"
    by (simp add: upt_rec norm_3_4_0)
  from dogleg_returns_gauss_newton[of "[3, 4, 0]" "[1, 1, 1]" "[0, 0, 0]" "1 / 2 ^ 52"
      "[1, 0, 0, 1, 0, 1]" "[3, 4, 0]" 10] g n
  show ?thesis by simp
qed




subsection \<open>A run on the identity with a small trust region\<close>

lemma sg_identity3: "scaled_gradient [1, 0, 0, 1, 0, 1] [1, 1, 1] [3, 4, 0] 3 = Inr [3, 4, 0]"
  by code_simp

lemma rt_identity3: "r_times [1, 0, 0, 1, 0, 1] [3 / 5, 4 / 5, 0] [3, 4, 0] 3 = Inr [3 / 5, 4 / 5, 0]"
  by code_simp

lemma norm_unit_3: "stableNorm [3 / 5, 4 / 5, 0] = 1"
  unfolding stableNorm_def by (rule sqrt_rat) (simp_all add: power2_eq_square)

lemma upt_0_3: "[0..<3] = [0, 1, 2]"
  by (simp add: upt_rec)

lemma dogleg_identity3_boundary:
  "ei_dogleg epsmch [1, 0, 0, 1, 0, 1] [1, 1, 1] [3, 4, 0] 1 [a, b, c] = Inr [3 / 5, 4 / 5, 0]"
proof -
  have len: "length [1, 1, 1 :: real] = 3" "length [3, 4, 0 :: real] = 3" "length [a, b, c] = 3"
    by simp_all
  have wa2: "map (\<lambda>j. [1, 1, 1] ! j * [3, 4, 0] ! j) [0..<3] = [3, 4, 0 :: real]"
    by (simp add: upt_0_3)
  have wa11: "map (\<lambda>j. [3, 4, 0] ! j / 5 / [1, 1, 1] ! j) [0..<3] = [3 / 5, 4 / 5, 0 :: real]"
    by (simp add: upt_0_3)
  have "ei_dogleg epsmch [1, 0, 0, 1, 0, 1] [1, 1, 1] [3, 4, 0] 1 [a, b, c]
        = Inr (combine (5 / 1 / 1) 0 1 3 [3 / 5, 4 / 5, 0] [3, 4, 0])"
    unfolding ei_dogleg_def Let_def len
    by (simp only: gn_identity3 sg_identity3 wa2 wa11 rt_identity3 norm_3_4_0 norm_unit_3 sum.case)
       simp
  also have "\<dots> = Inr [3 / 5, 4 / 5, 0]"
    by (simp add: combine_def upt_0_3)
  finally show ?thesis .
qed

subsection \<open>The claim about the trust region\<close>

text \<open>
  C2, as the code has it. Let the sizes of \<open>qtb\<close> and \<open>x\<close> agree with that of \<open>diag\<close>, let
  the packed factor hold its \<open>n (n + 1) / 2\<close> entries with no zero on the diagonal of
  \<open>R\<close>, let every entry of \<open>diag\<close> be positive and \<open>delta > 0\<close>. Then \<open>ei_dogleg\<close> returns,
  and the step it leaves in \<open>x\<close> satisfies \<open>\<parallel>diag \<cdot> x\<parallel> \<le> delta\<close>.
\<close>

theorem dogleg_in_trust_region:
  assumes lq: "length qtb = length diag" and lx: "length x = length diag"
    and ns: "nonsingular r (length diag)"
    and dpos: "\<forall>j<length diag. 0 < diag ! j" and d0: "0 < delta"
  shows "\<exists>x1. ei_dogleg epsmch r diag qtb delta x = Inr x1 \<and>
              stableNorm (map (\<lambda>j. diag ! j * x1 ! j) [0..<length diag]) \<le> delta"
proof -
  let ?n = "length diag"
  from gauss_newton_solves[OF ns lx, of epsmch qtb] obtain xg where
    gn: "gauss_newton epsmch r qtb ?n x = Inr xg" and sol: "gn_solved r qtb ?n 0 xg" by blast
  define p where "p = (\<lambda>j. diag ! j * xg ! j)"
  define Q where "Q = stableNorm (map (\<lambda>j. diag ! j * xg ! j) [0..<?n])"
  have Qeq: "Q = sqrt (\<Sum>j<?n. (p j)\<^sup>2)" by (simp add: Q_def p_def stableNorm_map_upt)
  have P0: "0 \<le> (\<Sum>j<?n. (p j)\<^sup>2)" by (simp add: sum_nonneg)
  have Q2: "Q\<^sup>2 = (\<Sum>j<?n. (p j)\<^sup>2)" using P0 by (simp add: Qeq)
  show ?thesis
  proof (cases "Q \<le> delta")
    case True
    then have "ei_dogleg epsmch r diag qtb delta x = Inr xg"
      by (simp add: ei_dogleg_def Let_def lq lx gn Q_def[symmetric])
    with True show ?thesis by (auto simp: Q_def)
  next
    case False
    then have Qd: "delta < Q" by simp
    with d0 have Q0: "0 < Q" by simp
    from ns have bound: "row_start ?n ?n \<le> length r" by (simp add: nonsingular_def)
    from scaled_gradient_value[OF bound, of diag qtb] obtain wa1 where
      sg: "scaled_gradient r diag qtb ?n = Inr wa1" and lwa1: "length wa1 = ?n"
      and wa1v: "\<forall>i<?n. wa1 ! i = col_partial r qtb ?n (Suc i) i / diag ! i" by blast
    define G where "G = stableNorm wa1"
    have Geq: "G = sqrt (\<Sum>j<?n. (wa1 ! j)\<^sup>2)" by (simp add: G_def stableNorm_nth[OF lwa1])
    have G2: "G\<^sup>2 = (\<Sum>j<?n. (wa1 ! j)\<^sup>2)" by (simp add: Geq sum_nonneg)
    have G0: "0 \<le> G" by (simp add: Geq sum_nonneg)
    show ?thesis
    proof (cases "G = 0")
      case True
      have res: "ei_dogleg epsmch r diag qtb delta x = Inr (combine 0 (delta / Q) delta ?n wa1 xg)"
        using False True by (simp add: ei_dogleg_def Let_def lq lx gn Q_def[symmetric] sg G_def[symmetric])
      have "stableNorm (map (\<lambda>j. diag ! j * combine 0 (delta / Q) delta ?n wa1 xg ! j) [0..<?n])
            = sqrt (\<Sum>j<?n. (delta / Q * p j)\<^sup>2)"
        using d0 by (simp add: combine_scaled_norm p_def)
      also have "\<dots> = sqrt ((delta / Q)\<^sup>2 * (\<Sum>j<?n. (p j)\<^sup>2))"
        by (simp only: power_mult_distrib sum_distrib_left)
      also have "\<dots> = delta"
        using d0 Q0 by (simp add: Q2[symmetric] real_sqrt_mult)
      finally show ?thesis using res by auto
    next
      case Gnz: False
      with G0 have Gpos: "0 < G" by simp
      define wa11 where "wa11 = map (\<lambda>j. wa1 ! j / G / diag ! j) [0..<?n]"
      define gh where "gh = (\<lambda>j. wa1 ! j / G)"
      have gh: "diag ! j * wa11 ! j = gh j" if "j < ?n" for j
        using that dpos by (auto simp: wa11_def gh_def)
      have gh1: "(\<Sum>j<?n. (gh j)\<^sup>2) = 1"
      proof -
        have "(\<Sum>j<?n. (gh j)\<^sup>2) = (\<Sum>j<?n. (wa1 ! j)\<^sup>2) / G\<^sup>2"
          by (simp add: gh_def power_divide sum_divide_distrib)
        also have "\<dots> = G\<^sup>2 / G\<^sup>2" by (simp only: G2)
        also have "\<dots> = 1" using Gnz by simp
        finally show ?thesis .
      qed
      have lwa2: "length (map (\<lambda>j. diag ! j * xg ! j) [0..<?n]) = ?n" by simp
      from r_times_value[OF bound lwa2, of wa11] obtain wa21 where
        rt: "r_times r wa11 (map (\<lambda>j. diag ! j * xg ! j) [0..<?n]) ?n = Inr wa21" by blast
      define T where "T = stableNorm wa21"
      define sgnorm where "sgnorm = G / T / T"
      have sg0: "0 \<le> sgnorm"
      proof -
        have "sgnorm = G / (T * T)" by (simp add: sgnorm_def)
        then show ?thesis using G0 by (simp add: zero_le_divide_iff zero_le_mult_iff)
      qed
      have scaled: "stableNorm (map (\<lambda>j. diag ! j * combine s a delta ?n wa11 xg ! j) [0..<?n])
            = sqrt (\<Sum>j<?n. ((1 - a) * min s delta * gh j + a * p j)\<^sup>2)" for s a
        unfolding combine_scaled_norm
        by (rule arg_cong[where f = sqrt], rule sum.cong) (auto simp: gh p_def)
      show ?thesis
      proof (cases "delta \<le> sgnorm")
        case True
        have res: "ei_dogleg epsmch r diag qtb delta x = Inr (combine sgnorm 0 delta ?n wa11 xg)"
          using True
          by (simp only: ei_dogleg_def Let_def lq lx gn Q_def[symmetric] sg G_def[symmetric]
              wa11_def[symmetric] rt T_def[symmetric] sgnorm_def[symmetric]
              \<open>\<not> Q \<le> delta\<close> Gnz sum.case if_False if_True simp_thms)
        have "stableNorm (map (\<lambda>j. diag ! j * combine sgnorm 0 delta ?n wa11 xg ! j) [0..<?n])
              = sqrt (\<Sum>j<?n. (delta * gh j)\<^sup>2)"
          using True by (simp add: scaled min_def)
        also have "\<dots> = sqrt (delta\<^sup>2 * (\<Sum>j<?n. (gh j)\<^sup>2))"
          by (simp only: power_mult_distrib sum_distrib_left)
        also have "\<dots> = delta" using d0 by (simp add: gh1)
        finally show ?thesis using res by auto
      next
        case False
        then have sd: "sgnorm < delta" by simp
        define B where "B = stableNorm qtb"
        define c where "c = (\<Sum>j<?n. gh j * p j)"
        define temp1 where "temp1 = B / G * (B / Q) * (sgnorm / delta)"
        define temp2 where "temp2 = temp1 - delta / Q * (sgnorm / delta)\<^sup>2
                       + sqrt ((temp1 - delta / Q)\<^sup>2 + (1 - (delta / Q)\<^sup>2) * (1 - (sgnorm / delta)\<^sup>2))"
        define alpha where "alpha = delta / Q * (1 - (sgnorm / delta)\<^sup>2) / temp2"
        have res: "ei_dogleg epsmch r diag qtb delta x = Inr (combine sgnorm alpha delta ?n wa11 xg)"
          by (simp only: ei_dogleg_def Let_def lq lx gn Q_def[symmetric] sg G_def[symmetric]
              wa11_def[symmetric] rt T_def[symmetric] sgnorm_def[symmetric] B_def[symmetric]
              temp1_def[symmetric] temp2_def[symmetric] alpha_def[symmetric]
              \<open>\<not> Q \<le> delta\<close> Gnz False sum.case if_False if_True simp_thms)
        have BB: "B * B = (\<Sum>m<?n. (qtb ! m)\<^sup>2)"
          using stableNorm_nth[OF lq] by (simp add: B_def sum_nonneg)
        have cB: "c = B * B / G"
        proof -
          have "c = (\<Sum>j<?n. col_partial r qtb ?n (Suc j) j * xg ! j) / G"
            unfolding c_def sum_divide_distrib
          proof (rule sum.cong[OF refl])
            fix j assume "j \<in> {..<?n}"
            then have j: "j < ?n" by simp
            with dpos have "diag ! j \<noteq> 0" by auto
            then show "gh j * p j = col_partial r qtb ?n (Suc j) j * xg ! j / G"
              using wa1v j by (simp add: gh_def p_def)
          qed
          with gradient_dot[OF sol] BB show ?thesis by simp
        qed
        have W: "0 < Q\<^sup>2 - 2 * c * sgnorm + sgnorm\<^sup>2"
        proof -
          have Weq: "(\<Sum>j<?n. (p j - sgnorm * gh j)\<^sup>2) = Q\<^sup>2 - 2 * c * sgnorm + sgnorm\<^sup>2"
            using sum_sq_lin[where n="?n" and s=1 and f=p and a="- sgnorm" and g=gh]
            by (simp add: Q2 gh1 c_def algebra_simps)
          have "0 \<le> (\<Sum>j<?n. (p j - sgnorm * gh j)\<^sup>2)" by (simp add: sum_nonneg)
          moreover have "(\<Sum>j<?n. (p j - sgnorm * gh j)\<^sup>2) \<noteq> 0"
          proof
            assume "(\<Sum>j<?n. (p j - sgnorm * gh j)\<^sup>2) = 0"
            from sum_sq_zero_eq[OF this] have "Q\<^sup>2 = sgnorm\<^sup>2" by (simp add: Q2 gh1)
            with Q0 sg0 have "Q = sgnorm" by (simp add: power2_eq_iff_nonneg)
            with sd Qd show False by simp
          qed
          ultimately show ?thesis using Weq by simp
        qed
        from blend_alpha[OF sg0 sd Qd W Gnz cB temp1_def temp2_def alpha_def]
        have id: "((1 - alpha) * sgnorm)\<^sup>2 + 2 * ((1 - alpha) * sgnorm) * alpha * c + alpha\<^sup>2 * Q\<^sup>2 = delta\<^sup>2" .
        have "stableNorm (map (\<lambda>j. diag ! j * combine sgnorm alpha delta ?n wa11 xg ! j) [0..<?n])
              = sqrt (\<Sum>j<?n. ((1 - alpha) * sgnorm * gh j + alpha * p j)\<^sup>2)"
          using sd by (simp add: scaled min_def)
        also have "(\<Sum>j<?n. ((1 - alpha) * sgnorm * gh j + alpha * p j)\<^sup>2) = delta\<^sup>2"
          using id by (simp add: sum_sq_lin gh1 c_def Q2[symmetric])
        finally show ?thesis using res d0 by auto
      qed
    qed
  qed
qed

theorem dogleg_in_trust_region_witness:
  "ei_dogleg (1 / 2 ^ 52) [1, 0, 0, 1, 0, 1] [1, 1, 1] [3, 4, 0] 1 [0, 0, 0] = Inr [3 / 5, 4 / 5, 0] \<and>
   stableNorm (map (\<lambda>j. [1, 1, 1] ! j * [3 / 5, 4 / 5, 0] ! j) [0..<length [1, 1, 1 :: real]]) \<le> 1"
proof -
  have lq: "length [3, 4, 0 :: real] = length [1, 1, 1 :: real]"
    and lx: "length [0, 0, 0 :: real] = length [1, 1, 1 :: real]" by simp_all
  have ns: "nonsingular [1, 0, 0, 1, 0, 1] (length [1, 1, 1 :: real])"
    by (auto simp: nonsingular_def less_Suc_eq)
  have dpos: "\<forall>j<length [1, 1, 1 :: real]. 0 < [1, 1, 1 :: real] ! j"
    by (auto simp: less_Suc_eq)
  have d0: "(0 :: real) < 1" by simp
  from dogleg_in_trust_region[OF lq lx ns dpos d0, of "1 / 2 ^ 52"]
    dogleg_identity3_boundary[of "1 / 2 ^ 52" 0 0 0]
  show ?thesis by simp
qed

text \<open>
  The claim C2 as it is stated fails on a factor with a zero on its diagonal. For
  \<open>R\<close> with the rows \<open>(0, 4)\<close> and \<open>(0, 3)\<close>, \<open>diag = (3 \<epsilon> / 7, 1)\<close> with the machine
  epsilon \<open>\<epsilon> = 2\<^sup>-\<^sup>5\<^sup>2\<close>, \<open>qtb = (3, 4)\<close> and \<open>delta = 1\<close>, the zero pivot is replaced by
  \<open>\<epsilon>\<close>, the Gauss-Newton vector no longer solves \<open>R x = qtb\<close>, and the step returned
  has \<open>\<parallel>diag \<cdot> x\<parallel>\<^sup>2 = 15817 / 14641 > 1\<close>.
\<close>

theorem dogleg_singular_leaves_trust_region:
  "ei_dogleg (1 / 2 ^ 52) [0, 4, 3] [3 / (7 * 2 ^ 52), 1] [3, 4] 1 [0, 0]
     = Inr [- (49 * 2 ^ 52 / 121), 124 / 121] \<and>
   \<not> stableNorm [3 / (7 * 2 ^ 52) * - (49 * 2 ^ 52 / 121), 1 * (124 / 121)] \<le> 1"
  by (intro conjI dogleg_sing norm_sing)

section \<open>Properties of the skyline LU\<close>

subsection \<open>What solve can return\<close>

text \<open>
  A result is free of assertion failures when it is a value or the out-of-bounds
  access of an unchecked read.
\<close>

lemma bind_err_no_assert:
  assumes "m \<noteq> Inl AssertionFailed" and "\<And>v. f v \<noteq> Inl AssertionFailed"
  shows "bind_err m f \<noteq> Inl AssertionFailed"
  using assms by (cases m) (auto simp: bind_err_def)

lemma raw_no_assert: "raw v i \<noteq> Inl AssertionFailed"
  by (simp add: raw_def)

lemma raw_set_no_assert: "raw_set v i a \<noteq> Inl AssertionFailed"
  by (simp add: raw_set_def)

lemma fold_err_no_assert:
  assumes "\<And>a s. f a s \<noteq> Inl AssertionFailed"
  shows "fold_err f xs s \<noteq> Inl AssertionFailed"
proof (induction xs arbitrary: s)
  case Nil
  then show ?case by simp
next
  case (Cons a xs)
  show ?case
  proof (cases "f a s")
    case (Inl e)
    with assms[of a s] show ?thesis by simp
  next
    case (Inr s1)
    with Cons.IH[of s1] show ?thesis by simp
  qed
qed

lemma forward_loop_no_assert: "forward_loop m x row newVal col pos \<noteq> Inl AssertionFailed"
proof (induction m x row newVal col pos rule: forward_loop.induct)
  case (1 m x row newVal col pos)
  show ?case
    using "1.IH" raw_no_assert[of x col]
      raw_no_assert[of "sk_lower m" pos]
    by (subst forward_loop.simps) (auto simp: lower_value_def split: sum.splits)
qed

lemma backward_loop_no_assert: "backward_loop m x_col x uIt \<noteq> Inl AssertionFailed"
proof (induction m x_col x uIt rule: backward_loop.induct)
  case (1 m x_col x uIt)
  show ?case
    using "1.IH" raw_no_assert[of "sk_upper m" "m_id uIt"] raw_no_assert[of x "upper_row m uIt"]
      raw_set_no_assert[of x "upper_row m uIt"]
    by (subst backward_loop.simps) (auto simp: upper_value_def split: sum.splits)
qed

lemma forward_row_no_assert: "forward_row m b row x \<noteq> Inl AssertionFailed"
  unfolding forward_row_def Let_def
  by (intro bind_err_no_assert raw_no_assert raw_set_no_assert forward_loop_no_assert)

lemma backward_col_no_assert: "backward_col m col x \<noteq> Inl AssertionFailed"
  unfolding backward_col_def Let_def coeffDiag_def
  by (intro bind_err_no_assert raw_no_assert raw_set_no_assert backward_loop_no_assert)

lemma lu_solve_outcome:
  "lu_solve m b x transposed = Inl OutOfBounds \<or> (\<exists>x1. lu_solve m b x transposed = Inr (True, x1))"
proof (cases "lu_solve m b x transposed")
  case (Inl e)
  have "lu_solve m b x transposed \<noteq> Inl AssertionFailed"
    unfolding lu_solve_def coeffDiag_def
    by (intro bind_err_no_assert raw_no_assert raw_set_no_assert fold_err_no_assert
        forward_row_no_assert backward_col_no_assert) simp
  with Inl show ?thesis by (cases e) auto
next
  case (Inr r)
  then have "fst r = True"
    by (auto simp: lu_solve_def bind_err_def split: sum.splits)
  with Inr show ?thesis by (cases r) auto
qed


subsection \<open>solve returns on a well-formed factorisation\<close>

lemma raw_in_range: "0 \<le> i \<Longrightarrow> i < int (length v) \<Longrightarrow> raw v i = Inr (v ! nat i)"
  by (simp add: raw_def)

lemma raw_set_in_range:
  "0 \<le> i \<Longrightarrow> i < int (length v) \<Longrightarrow> raw_set v i a = Inr (v[nat i := a])"
  by (simp add: raw_set_def)

lemma fold_err_returns:
  assumes "P s" and "\<And>a s. a \<in> set xs \<Longrightarrow> P s \<Longrightarrow> \<exists>s1. f a s = Inr s1 \<and> P s1"
  shows "\<exists>s1. fold_err f xs s = Inr s1 \<and> P s1"
  using assms
proof (induction xs arbitrary: s)
  case Nil
  then show ?case by simp
next
  case (Cons a xs)
  from Cons.prems(2)[of a s] Cons.prems(1) obtain s1 where a: "f a s = Inr s1" "P s1" by auto
  from Cons.IH[OF a(2)] Cons.prems(2) obtain s2 where "fold_err f xs s1 = Inr s2" "P s2"
    by (metis list.set_intros(2))
  with a show ?case by auto
qed

lemma forward_loop_returns:
  assumes "IsRowMajor m \<longrightarrow>
             lowerProfile m ! row \<le> row \<and>
             lowerStart m ! row + lowerProfile m ! row \<le> length (sk_lower m)"
    and "row \<le> length x"
  shows "int (lowerStart m ! row) \<le> pos \<Longrightarrow>
         (IsRowMajor m \<longrightarrow> col = int row - int (lowerProfile m ! row) + (pos - int (lowerStart m ! row))) \<Longrightarrow>
         \<exists>v. forward_loop m x row newVal col pos = Inr v"
  using assms
proof (induction m x row newVal col pos rule: forward_loop.induct)
  case (1 m x row newVal col pos)
  show ?case
  proof (cases "lower_col m ((InnerLowerIterator m row)\<lparr>m_id := pos\<rparr>) < int row")
    case False
    then show ?thesis by (subst forward_loop.simps) simp
  next
    case True
    then have rm: "IsRowMajor m"
      by (auto simp: lower_col_def InnerLowerIterator_def split: if_splits)
    with True have lt: "int row - int (lowerProfile m ! row) + (pos - int (lowerStart m ! row)) < int row"
      by (simp add: lower_col_def lower_index_def InnerLowerIterator_def)
    from rm "1.prems" have col: "col = int row - int (lowerProfile m ! row) + (pos - int (lowerStart m ! row))"
      and lp: "lowerProfile m ! row \<le> row"
      and le: "lowerStart m ! row + lowerProfile m ! row \<le> length (sk_lower m)" by simp_all
    from col lp "1.prems"(1) lt "1.prems"(4) have c: "0 \<le> col" "col < int (length x)" by linarith+
    from lt le "1.prems"(1) have p: "0 \<le> pos" "pos < int (length (sk_lower m))" by linarith+
    from raw_in_range[OF c] obtain xv where xv: "raw x col = Inr xv" by blast
    from raw_in_range[OF p] obtain lv where
      lv: "lower_value m ((InnerLowerIterator m row)\<lparr>m_id := pos\<rparr>) = Inr lv"
      by (auto simp: lower_value_def)
    have "\<exists>v. forward_loop m x row (newVal - xv * lv) (col + 1) (pos + 1) = Inr v"
      using "1.prems" col by (intro "1.IH"[OF True xv lv]) auto
    then show ?thesis using True xv lv by (subst forward_loop.simps) simp
  qed
qed

lemma forward_row_returns:
  assumes wf: "wf_skyline m" and row: "row < sk_rows m" and b: "sk_rows m \<le> length b"
    and x: "sk_rows m \<le> length x"
  shows "\<exists>x1. forward_row m b row x = Inr x1 \<and> length x1 = length x"
proof -
  from wf row have facts: "IsRowMajor m \<longrightarrow> lowerProfile m ! row \<le> row \<and>
             lowerStart m ! row + lowerProfile m ! row \<le> length (sk_lower m)"
    by (auto simp: wf_skyline_def)
  have rb: "raw b (int row) = Inr (b ! row)" using row b by (simp add: raw_def)
  have rs: "raw_set x (int row) (b ! row) = Inr (x[row := b ! row])" using row x by (simp add: raw_set_def)
  have rx: "raw (x[row := b ! row]) (int row) = Inr (b ! row)" using row x by (simp add: raw_def)
  have "row \<le> length (x[row := b ! row])" using row x by simp
  from forward_loop_returns[OF facts this, of "m_id (InnerLowerIterator m row)"
      "lower_col m (InnerLowerIterator m row)" "b ! row"]
  obtain v where v: "forward_loop m (x[row := b ! row]) row (b ! row)
      (lower_col m (InnerLowerIterator m row)) (m_id (InnerLowerIterator m row)) = Inr v"
    by (auto simp: lower_col_def lower_index_def InnerLowerIterator_def)
  have "forward_row m b row x = raw_set (x[row := b ! row]) (int row) v"
    unfolding forward_row_def Let_def by (simp only: rb rs rx v bind_err_def sum.case)
  then show ?thesis using row x by (simp add: raw_set_def)
qed

lemma backward_loop_returns:
  assumes "m_start uIt = int (upperStart m ! m_outer uIt)"
    and "m_end uIt = int (upperStart m ! m_outer uIt + upperProfile m ! m_outer uIt)"
    and "upperStart m ! m_outer uIt + upperProfile m ! m_outer uIt \<le> length (sk_upper m)"
    and "IsRowMajor m \<longrightarrow> upperProfile m ! m_outer uIt \<le> m_outer uIt"
    and "m_outer uIt < length x"
  shows "\<exists>x1. backward_loop m x_col x uIt = Inr x1 \<and> length x1 = length x"
  using assms
proof (induction m x_col x uIt rule: backward_loop.induct)
  case (1 m x_col x uIt)
  show ?case
  proof (cases "it_ok uIt")
    case False
    then show ?thesis by (subst backward_loop.simps) simp
  next
    case True
    then have idr: "m_start uIt \<le> m_id uIt" "m_id uIt < m_end uIt" by (simp_all add: it_ok_def)
    with "1.prems" have p: "0 \<le> m_id uIt" "m_id uIt < int (length (sk_upper m))" by linarith+
    from raw_in_range[OF p] obtain uv where uv: "upper_value m uIt = Inr uv"
      by (auto simp: upper_value_def)
    have r: "0 \<le> upper_row m uIt" "upper_row m uIt < int (length x)"
      using idr "1.prems" by (auto simp: upper_row_def upper_index_def)
    from raw_in_range[OF r] obtain old where old: "raw x (upper_row m uIt) = Inr old" by blast
    define x1 where "x1 = x[nat (upper_row m uIt) := old - x_col * uv]"
    have set: "raw_set x (upper_row m uIt) (old - x_col * uv) = Inr x1"
      using raw_set_in_range[OF r] by (simp add: x1_def)
    have "\<exists>x2. backward_loop m x_col x1 (it_add uIt (- 1)) = Inr x2 \<and> length x2 = length x1"
      using "1.prems" by (intro "1.IH"[OF True uv old set]) (auto simp: it_add_def x1_def)
    then show ?thesis using True uv old set
      by (subst backward_loop.simps) (auto simp: x1_def)
  qed
qed

lemma backward_col_returns:
  assumes wf: "wf_skyline m" and col: "col < sk_rows m" and x: "sk_rows m \<le> length x"
  shows "\<exists>x1. backward_col m col x = Inr x1 \<and> length x1 = length x"
proof -
  from wf col have d: "col < length (sk_diag m)" by (simp add: wf_skyline_def)
  from wf col have facts:
    "upperStart m ! (col + 1) = upperStart m ! col + upperProfile m ! col"
    "upperStart m ! (col + 1) \<le> length (sk_upper m)"
    "IsRowMajor m \<longrightarrow> upperProfile m ! col \<le> col"
    by (auto simp: wf_skyline_def)
  define x1 where "x1 = x[col := x ! col / sk_diag m ! col]"
  define uIt where "uIt = it_add (InnerUpperIterator m col)
       (int (upper_size m (InnerUpperIterator m col)) - 1)"
  have "\<exists>x2. backward_loop m (x1 ! col) x1 uIt = Inr x2 \<and> length x2 = length x1"
    using facts col x
    by (intro backward_loop_returns) (auto simp: uIt_def it_add_def InnerUpperIterator_def x1_def)
  moreover have "backward_col m col x = backward_loop m (x1 ! col) x1 uIt"
    using col x d
    by (simp add: backward_col_def bind_err_def raw_def raw_set_def coeffDiag_def Let_def
        x1_def uIt_def)
  ultimately show ?thesis by (simp add: x1_def)
qed

lemma lu_solve_returns:
  assumes wf: "wf_skyline m" and n: "0 < sk_rows m" and b: "sk_rows m \<le> length b"
    and x: "sk_rows m \<le> length x"
  shows "\<exists>x1. lu_solve m b x transposed = Inr (True, x1)"
proof -
  have "\<exists>x1. fold_err (forward_row m b) [0..<sk_rows m] x = Inr x1 \<and> sk_rows m \<le> length x1"
  proof (rule fold_err_returns[where P = "\<lambda>x. sk_rows m \<le> length x"])
    show "sk_rows m \<le> length x" by (rule x)
  next
    fix a and s :: "real list" assume "a \<in> set [0..<sk_rows m]" and s: "sk_rows m \<le> length s"
    then have "a < sk_rows m" by simp
    from forward_row_returns[OF wf this b s] s
    show "\<exists>s1. forward_row m b a s = Inr s1 \<and> sk_rows m \<le> length s1" by auto
  qed
  then obtain x1 where f: "fold_err (forward_row m b) [0..<sk_rows m] x = Inr x1"
    and l1: "sk_rows m \<le> length x1" by blast
  have "\<exists>x2. fold_err (backward_col m) (rev [1..<sk_rows m]) x1 = Inr x2 \<and> sk_rows m \<le> length x2"
  proof (rule fold_err_returns[where P = "\<lambda>x. sk_rows m \<le> length x"])
    show "sk_rows m \<le> length x1" by (rule l1)
  next
    fix a and s :: "real list" assume "a \<in> set (rev [1..<sk_rows m])" and s: "sk_rows m \<le> length s"
    then have "a < sk_rows m" by simp
    from backward_col_returns[OF wf this s] s
    show "\<exists>s1. backward_col m a s = Inr s1 \<and> sk_rows m \<le> length s1" by auto
  qed
  then obtain x2 where g: "fold_err (backward_col m) (rev [1..<sk_rows m]) x1 = Inr x2"
    and l2: "sk_rows m \<le> length x2" by blast
  from wf n have d: "0 < length (sk_diag m)" by (cases "sk_diag m") (auto simp: wf_skyline_def)
  from n l2 have "0 < length x2" by (cases x2) auto
  with f g d show ?thesis
    by (simp add: lu_solve_def bind_err_def raw_def raw_set_def coeffDiag_def)
qed

lemma wf_A_row: "wf_skyline A_row"
  by (auto simp: wf_skyline_def A_row_def less_Suc_eq numeral_2_eq_2)

lemma wf_A_col: "wf_skyline A_col"
  by (auto simp: wf_skyline_def A_col_def less_Suc_eq numeral_2_eq_2)

subsection \<open>The object is changed in m_lu, m_precision and m_flags only\<close>

lemma obj_compute_succeeded:
  "obj_compute this = Inr this1 \<Longrightarrow> m_succeeded this1 = m_succeeded this"
  by (auto simp: obj_compute_def bind_err_def split: sum.splits)

lemma obj_computeRowMajor_succeeded:
  "obj_computeRowMajor this = Inr this1 \<Longrightarrow> m_succeeded this1 = m_succeeded this"
  by (auto simp: obj_computeRowMajor_def bind_err_def split: sum.splits)

lemma run_call_succeeded:
  "run_call c this = Inr this1 \<Longrightarrow> m_succeeded this1 = m_succeeded this"
  by (cases c)
     (auto simp: setPrecision_def setFlags_def setOrderingMethod_def bind_err_def
           dest: obj_compute_succeeded obj_computeRowMajor_succeeded split: sum.splits)

lemma run_calls_succeeded:
  "fold_err run_call cs this = Inr this1 \<Longrightarrow> m_succeeded this1 = m_succeeded this"
proof (induction cs arbitrary: this)
  case Nil
  then show ?case by simp
next
  case (Cons c cs)
  then obtain this2 where a: "run_call c this = Inr this2"
    and b: "fold_err run_call cs this2 = Inr this1"
    by (auto split: sum.splits)
  from Cons.IH[OF b] run_call_succeeded[OF a] show ?case by simp
qed

lemma ctor_succeeded:
  "SkylineInplaceLU_ctor dummy_precision matrix flags = Inr this \<Longrightarrow> m_succeeded this = None"
  by (auto simp: SkylineInplaceLU_ctor_def Let_def
           dest!: obj_compute_succeeded obj_computeRowMajor_succeeded split: if_splits)

subsection \<open>Runs on the two small matrices\<close>

lemma ctor_A_row:
  "SkylineInplaceLU_ctor (1 / 10 ^ 12) A_row 0 =
     Inr \<lparr>m_precision = 1 / 10 ^ 13, m_flags = 0, m_status = 0, m_succeeded = None,
          m_lu = A_row\<lparr>sk_diag := [2, 3], sk_lower := [2]\<rparr>\<rparr>"
  unfolding A_row_def by code_simp

lemma ctor_A_col:
  "SkylineInplaceLU_ctor (1 / 10 ^ 12) A_col 0 =
     Inr \<lparr>m_precision = 1 / 10 ^ 13, m_flags = 0, m_status = 0, m_succeeded = None,
          m_lu = A_col\<lparr>sk_diag := [2, 3], sk_lower := [2]\<rparr>\<rparr>"
  unfolding A_col_def by code_simp

lemma solve_A_row:
  "solve \<lparr>m_precision = p, m_flags = f, m_status = s, m_succeeded = None,
          m_lu = A_row\<lparr>sk_diag := [2, 3], sk_lower := [2]\<rparr>\<rparr> [3, 9] [0, 0] 0
   = Inr (True, [1, 1])"
  unfolding A_row_def by code_simp

lemma solve_A_col:
  "solve \<lparr>m_precision = p, m_flags = f, m_status = s, m_succeeded = None,
          m_lu = A_col\<lparr>sk_diag := [2, 3], sk_lower := [2]\<rparr>\<rparr> [3, 9] [0, 0] 0
   = Inr (True, [3 / 2, 3])"
  unfolding A_col_def by code_simp

lemma sk_mult_A: "sk_mult A_col [1, 1] = [3, 9]" "sk_mult A_row [1, 1] = [3, 9]"
  unfolding A_col_def A_row_def by code_simp+

subsection \<open>The claims about the skyline LU\<close>

text \<open>
  C3, on the code. For the strictly diagonally dominant matrix with the rows \<open>(2, 1)\<close>
  and \<open>(4, 5)\<close> and the right-hand side \<open>b = A \<cdot> (1, 1) = (3, 9)\<close>, the factorisation
  meets the pivots 2 and 3 and stores \<open>L\<close> and \<open>U\<close> with \<open>L \<cdot> U = A\<close> in either storage
  order. On the row-major storage \<open>solve\<close> leaves \<open>x = (1, 1)\<close>. On the column-major
  storage the lower iterator of \<open>row\<close> walks a column, \<open>lIt.col() < row\<close> is false at
  once, the forward substitution is skipped, and \<open>solve\<close> leaves \<open>x = (3/2, 3)\<close>.
\<close>

theorem solve_column_major_2x2:
  "sk_mult A_col [1, 1] = [3, 9] \<and>
   SkylineInplaceLU_ctor (1 / 10 ^ 12) A_col 0 =
     Inr \<lparr>m_precision = 1 / 10 ^ 13, m_flags = 0, m_status = 0, m_succeeded = None,
          m_lu = A_col\<lparr>sk_diag := [2, 3], sk_lower := [2]\<rparr>\<rparr> \<and>
   solve \<lparr>m_precision = 1 / 10 ^ 13, m_flags = 0, m_status = 0, m_succeeded = None,
          m_lu = A_col\<lparr>sk_diag := [2, 3], sk_lower := [2]\<rparr>\<rparr> [3, 9] [0, 0] 0
     = Inr (True, [3 / 2, 3]) \<and>
   sk_mult A_row [1, 1] = [3, 9] \<and>
   SkylineInplaceLU_ctor (1 / 10 ^ 12) A_row 0 =
     Inr \<lparr>m_precision = 1 / 10 ^ 13, m_flags = 0, m_status = 0, m_succeeded = None,
          m_lu = A_row\<lparr>sk_diag := [2, 3], sk_lower := [2]\<rparr>\<rparr> \<and>
   solve \<lparr>m_precision = 1 / 10 ^ 13, m_flags = 0, m_status = 0, m_succeeded = None,
          m_lu = A_row\<lparr>sk_diag := [2, 3], sk_lower := [2]\<rparr>\<rparr> [3, 9] [0, 0] 0
     = Inr (True, [1, 1])"
  by (intro conjI sk_mult_A ctor_A_col ctor_A_row solve_A_col solve_A_row)

text \<open>
  The column-major \<open>compute\<close> on a banded matrix: the loops over \<open>rrow\<close> step the lower
  iterator of the pivot column once per row below the pivot, past the end of the
  column's profile. For the tridiagonal matrix \<open>T_col\<close> the entry \<open>L(2,1)\<close> comes out as
  0 and \<open>U(2,2)\<close> as 6, where \<open>L \<cdot> U = A\<close> needs \<open>4/19\<close> and \<open>106/19\<close>.
\<close>

lemma compute_column_major_banded:
  "lu_compute T_col = Inr (T_col\<lparr>sk_diag := [4, 19 / 4, 6], sk_lower := [1 / 4, 0]\<rparr>)"
  unfolding T_col_def by code_simp

text \<open>
  C8. \<open>solve\<close> returns \<open>true\<close>. On every factorisation that satisfies the storage
  invariant and has at least one row, with a right-hand side and an output vector of at
  least that many entries, the call returns, and the value it returns is \<open>true\<close>, whatever
  the entries of the factors are (a zero pivot included) and whatever \<open>transposed\<close> is.
  On all other inputs as well, \<open>solve\<close> has the one \<open>return\<close> statement \<open>return true\<close>: a
  call that returns returns \<open>true\<close>, no assertion is ever raised, and the one other
  outcome of the model is the unchecked access outside a vector or a value array, for
  which the source defines no behaviour.
\<close>

theorem solve_returns_true:
  "(wf_skyline (m_lu this) \<and> 0 < sk_rows (m_lu this) \<and>
    sk_rows (m_lu this) \<le> length b \<and> sk_rows (m_lu this) \<le> length x \<longrightarrow>
      (\<exists>x1. solve this b x transposed = Inr (True, x1))) \<and>
   (solve this b x transposed = Inl OutOfBounds \<or>
    (\<exists>x1. solve this b x transposed = Inr (True, x1)))"
  unfolding solve_def using lu_solve_returns lu_solve_outcome by blast

theorem solve_returns_true_witness:
  "wf_skyline (A_row\<lparr>sk_diag := [2, 3], sk_lower := [2]\<rparr>) \<and>
   0 < sk_rows (A_row\<lparr>sk_diag := [2, 3], sk_lower := [2]\<rparr>) \<and>
   sk_rows (A_row\<lparr>sk_diag := [2, 3], sk_lower := [2]\<rparr>) \<le> length [3, 9 :: real] \<and>
   sk_rows (A_row\<lparr>sk_diag := [2, 3], sk_lower := [2]\<rparr>) \<le> length [0, 0 :: real] \<and>
   solve \<lparr>m_precision = 0, m_flags = 0, m_status = 0, m_succeeded = None,
          m_lu = A_row\<lparr>sk_diag := [2, 3], sk_lower := [2]\<rparr>\<rparr> [3, 9] [0, 0] 0
     = Inr (True, [1, 1]) \<and>
   wf_skyline (A_col\<lparr>sk_diag := [0, 0], sk_lower := [0]\<rparr>) \<and>
   (\<exists>x1. solve \<lparr>m_precision = 0, m_flags = 0, m_status = 0, m_succeeded = None,
               m_lu = A_col\<lparr>sk_diag := [0, 0], sk_lower := [0]\<rparr>\<rparr> [3, 9] [0, 0] 1
          = Inr (True, x1))"
proof -
  have w1: "wf_skyline (A_row\<lparr>sk_diag := [2, 3], sk_lower := [2]\<rparr>)"
    by (auto simp: wf_skyline_def A_row_def less_Suc_eq numeral_2_eq_2)
  have w2: "wf_skyline (A_col\<lparr>sk_diag := [0, 0], sk_lower := [0]\<rparr>)"
    by (auto simp: wf_skyline_def A_col_def less_Suc_eq numeral_2_eq_2)
  have r1: "sk_rows (A_row\<lparr>sk_diag := [2, 3], sk_lower := [2]\<rparr>) = 2"
    by (simp add: A_row_def)
  have r2: "sk_rows (A_col\<lparr>sk_diag := [0, 0], sk_lower := [0]\<rparr>) = 2"
    by (simp add: A_col_def)
  have v: "solve \<lparr>m_precision = 0, m_flags = 0, m_status = 0, m_succeeded = None,
          m_lu = A_row\<lparr>sk_diag := [2, 3], sk_lower := [2]\<rparr>\<rparr> [3, 9] [0, 0] 0
     = Inr (True, [1, 1])"
    by (rule solve_A_row)
  from solve_returns_true[of
      "\<lparr>m_precision = 0, m_flags = 0, m_status = 0, m_succeeded = None,
          m_lu = A_row\<lparr>sk_diag := [2, 3], sk_lower := [2]\<rparr>\<rparr>" "[3, 9]" "[0, 0]" 0]
    solve_returns_true[of
      "\<lparr>m_precision = 0, m_flags = 0, m_status = 0, m_succeeded = None,
          m_lu = A_col\<lparr>sk_diag := [0, 0], sk_lower := [0]\<rparr>\<rparr>" "[3, 9]" "[0, 0]" 1]
    w1 w2 r1 r2 v
  show ?thesis by simp
qed

text \<open>
  C9. The constructor leaves \<open>m_succeeded\<close> unassigned, and no member function assigns
  it: after the constructor and any sequence of calls of \<open>setPrecision\<close>, \<open>setFlags\<close>,
  \<open>setOrderingMethod\<close>, \<open>compute\<close>, \<open>computeRowMajor\<close> and \<open>solve\<close>, \<open>succeeded()\<close> returns
  the indeterminate value the member started with, whatever the factorisation did.
\<close>

theorem succeeded_never_assigned:
  "(SkylineInplaceLU_ctor dummy_precision matrix flags = Inr this \<longrightarrow> succeeded this = None) \<and>
   (run_call c obj = Inr obj1 \<longrightarrow> succeeded obj1 = succeeded obj) \<and>
   (SkylineInplaceLU_ctor dummy_precision matrix flags = Inr this \<and>
    fold_err run_call calls this = Inr this1 \<longrightarrow> succeeded this1 = None)"
  using ctor_succeeded[of dummy_precision matrix flags this]
    run_call_succeeded[of c obj obj1] run_calls_succeeded[of calls this this1]
  by (auto simp: succeeded_def)

theorem succeeded_never_assigned_witness:
  "SkylineInplaceLU_ctor (1 / 10 ^ 12) A_row 0 =
     Inr \<lparr>m_precision = 1 / 10 ^ 13, m_flags = 0, m_status = 0, m_succeeded = None,
          m_lu = A_row\<lparr>sk_diag := [2, 3], sk_lower := [2]\<rparr>\<rparr> \<and>
   fold_err run_call [Call_setFlags 3, Call_solve [3, 9] [0, 0] 0, Call_setPrecision 0]
     \<lparr>m_precision = 1 / 10 ^ 13, m_flags = 0, m_status = 0, m_succeeded = None,
      m_lu = A_row\<lparr>sk_diag := [2, 3], sk_lower := [2]\<rparr>\<rparr>
   = Inr \<lparr>m_precision = 0, m_flags = 3, m_status = 0, m_succeeded = None,
          m_lu = A_row\<lparr>sk_diag := [2, 3], sk_lower := [2]\<rparr>\<rparr> \<and>
   succeeded \<lparr>m_precision = 0, m_flags = 3, m_status = 0, m_succeeded = None,
          m_lu = A_row\<lparr>sk_diag := [2, 3], sk_lower := [2]\<rparr>\<rparr> = None"
proof -
  have r: "fold_err run_call [Call_setFlags 3, Call_solve [3, 9] [0, 0] 0, Call_setPrecision 0]
     \<lparr>m_precision = 1 / 10 ^ 13, m_flags = 0, m_status = 0, m_succeeded = None,
      m_lu = A_row\<lparr>sk_diag := [2, 3], sk_lower := [2]\<rparr>\<rparr>
   = Inr \<lparr>m_precision = 0, m_flags = 3, m_status = 0, m_succeeded = None,
          m_lu = A_row\<lparr>sk_diag := [2, 3], sk_lower := [2]\<rparr>\<rparr>"
    by (simp add: setFlags_def setPrecision_def solve_A_row bind_err_def)
  from succeeded_never_assigned[of "1 / 10 ^ 12" A_row 0
      "\<lparr>m_precision = 1 / 10 ^ 13, m_flags = 0, m_status = 0, m_succeeded = None,
          m_lu = A_row\<lparr>sk_diag := [2, 3], sk_lower := [2]\<rparr>\<rparr>"
      "Call_setFlags 3"
      "\<lparr>m_precision = 1 / 10 ^ 13, m_flags = 0, m_status = 0, m_succeeded = None,
          m_lu = A_row\<lparr>sk_diag := [2, 3], sk_lower := [2]\<rparr>\<rparr>"
      "\<lparr>m_precision = 1 / 10 ^ 13, m_flags = 3, m_status = 0, m_succeeded = None,
          m_lu = A_row\<lparr>sk_diag := [2, 3], sk_lower := [2]\<rparr>\<rparr>"
      "[Call_setFlags 3, Call_solve [3, 9] [0, 0] 0, Call_setPrecision 0]"
      "\<lparr>m_precision = 0, m_flags = 3, m_status = 0, m_succeeded = None,
          m_lu = A_row\<lparr>sk_diag := [2, 3], sk_lower := [2]\<rparr>\<rparr>"]
    ctor_A_row r
  show ?thesis by simp
qed

end
